theory Spec2Isabelle
  imports Complex_Main "HOL-Library.Sublist"
begin

section \<open>The audio recorder (modules/audio/audio\_recorder.py)\<close>

text \<open>
  A frame is the array \<^verbatim>\<open>np.frombuffer(in_data, dtype=np.float32)\<close> of one delivery.
  Samples and clock readings are idealised as reals. The recorder object is a record of
  the fields its methods read and write: \<open>stream\<close> says whether \<^verbatim>\<open>self.stream\<close> holds a
  stream object (as opposed to \<^verbatim>\<open>None\<close>), \<open>auto_stop_callback\<close> whether a callback has
  been installed. Logging and \<^verbatim>\<open>play_sound\<close> (which only spawns a thread that catches its
  own errors) change no field and are left out.
\<close>

type_synonym frame = "real list"

record recorder =
  is_recording :: bool
  stream :: bool
  audio_data :: "frame list"
  silence_start :: "real option"
  silence_timeout :: real
  auto_stop_callback :: bool
  auto_stop_enabled :: bool

text \<open>
  What the audio device does when asked: \<^verbatim>\<open>self.audio.open(...)\<close> may raise, and so may
  \<^verbatim>\<open>self.stream.start_stream()\<close> after the stream object has been stored; on the way
  down \<^verbatim>\<open>stop_stream()\<close> or \<^verbatim>\<open>close()\<close> may raise. Each outcome is a branch of the model.
\<close>

datatype open_outcome = OpenOk | OpenRaises | StartStreamRaises

datatype close_outcome = CloseOk | StopStreamRaises | CloseRaises

text \<open>
  \<^verbatim>\<open>start_recording(auto_stop)\<close>: the whole body runs inside \<^verbatim>\<open>with self._record_lock\<close>,
  so one call is one atomic transition here. The \<^verbatim>\<open>except\<close> branch only clears
  \<^verbatim>\<open>is_recording\<close>; the fields assigned before the failure keep their new values.
\<close>

definition start_recording :: "open_outcome \<Rightarrow> bool \<Rightarrow> recorder \<Rightarrow> bool \<times> recorder" where
  "start_recording dev auto_stop r =
     (if is_recording r then (False, r)
      else
        let r1 = r\<lparr>is_recording := True, auto_stop_enabled := auto_stop,
                   audio_data := [], silence_start := None\<rparr>
        in case dev of
             OpenOk \<Rightarrow> (True, r1\<lparr>stream := True\<rparr>)
           | OpenRaises \<Rightarrow> (False, r1\<lparr>is_recording := False\<rparr>)
           | StartStreamRaises \<Rightarrow> (False, r1\<lparr>stream := True, is_recording := False\<rparr>))"

text \<open>
  \<^verbatim>\<open>stop_recording()\<close>: returns \<^verbatim>\<open>None\<close> when not recording; otherwise clears the flags,
  closes the stream when there is one (an exception there is caught and the method falls
  through to \<^verbatim>\<open>return None\<close>, the stream field still set), and returns
  \<^verbatim>\<open>np.concatenate(self.audio_data)\<close> when the list of frames is non-empty.
  \<^verbatim>\<open>audio_data\<close> itself is not cleared.
\<close>

definition stop_recording :: "close_outcome \<Rightarrow> recorder \<Rightarrow> frame option \<times> recorder" where
  "stop_recording dev r =
     (if \<not> is_recording r then (None, r)
      else
        let r1 = r\<lparr>is_recording := False, auto_stop_enabled := False\<rparr>
        in if stream r1 \<and> dev \<noteq> CloseOk then (None, r1)
           else
             let r2 = (if stream r1 then r1\<lparr>stream := False\<rparr> else r1)
             in if audio_data r2 \<noteq> [] then (Some (concat (audio_data r2)), r2)
                else (None, r2))"

text \<open>A sequence of start requests, each with its own device outcome and \<open>auto_stop\<close> flag.\<close>

fun start_requests :: "(open_outcome \<times> bool) list \<Rightarrow> recorder \<Rightarrow> bool list \<times> recorder" where
  "start_requests [] r = ([], r)"
| "start_requests ((dev, a) # reqs) r =
     (let (ok, r') = start_recording dev a r;
          (oks, r'') = start_requests reqs r'
      in (ok # oks, r''))"

text \<open>
  The constructor; \<open>timeout\<close> is \<^verbatim>\<open>config.get('audio.silence_timeout', 2.0)\<close>. No auto-stop
  callback is installed yet.
\<close>

definition recorder_init :: "real \<Rightarrow> recorder" where
  "recorder_init timeout = \<lparr>is_recording = False, stream = False, audio_data = [],
     silence_start = None, silence_timeout = timeout, auto_stop_callback = False,
     auto_stop_enabled = False\<rparr>"

text \<open>The recorder as the application holds it at start-up (callback installed, timeout 2.0).\<close>

definition idle_recorder :: recorder where
  "idle_recorder = (recorder_init 2)\<lparr>auto_stop_callback := True\<rparr>"

text \<open>
  \<^verbatim>\<open>np.sqrt(np.mean(audio_chunk**2))\<close>. The mean of an empty array is \<^verbatim>\<open>nan\<close> (numpy
  warns, it does not raise); \<open>None\<close> stands for it, and a comparison with \<^verbatim>\<open>nan\<close> is
  false whichever way it is written.
\<close>

definition np_rms :: "frame \<Rightarrow> real option" where
  "np_rms audio_chunk =
     (if audio_chunk = [] then None
      else Some (sqrt (sum_list (map (\<lambda>x. x * x) audio_chunk) / real (length audio_chunk))))"

definition nan_less :: "real option \<Rightarrow> real \<Rightarrow> bool" where
  "nan_less v t = (case v of None \<Rightarrow> False | Some x \<Rightarrow> x < t)"

definition nan_greater :: "real option \<Rightarrow> real \<Rightarrow> bool" where
  "nan_greater v t = (case v of None \<Rightarrow> False | Some x \<Rightarrow> x > t)"

datatype callback_flag = paContinue | paComplete

text \<open>
  \<^verbatim>\<open>_audio_callback\<close>, called by the audio library on its own thread with one buffer.
  \<open>threshold\<close> is \<^verbatim>\<open>config.get('audio.voice_activation_threshold', 0.02)\<close> and \<open>now\<close> the
  reading of \<^verbatim>\<open>time.time()\<close>. The result is the recorder, the flag handed back to the
  library, and whether \<^verbatim>\<open>threading.Timer(0.01, self._trigger_auto_stop).start()\<close> ran,
  that is whether a deferred stop was scheduled.
\<close>

definition audio_callback ::
  "real \<Rightarrow> real \<Rightarrow> frame \<Rightarrow> recorder \<Rightarrow> recorder \<times> callback_flag \<times> bool" where
  "audio_callback threshold now in_data r =
     (if \<not> is_recording r then (r, paComplete, False)
      else
        let r1 = r\<lparr>audio_data := audio_data r @ [in_data]\<rparr>
        in if auto_stop_enabled r1 \<and> auto_stop_callback r1 then
             if nan_less (np_rms in_data) threshold then
               (case silence_start r1 of
                  None \<Rightarrow> (r1\<lparr>silence_start := Some now\<rparr>, paContinue, False)
                | Some s \<Rightarrow>
                    if now - s > silence_timeout r1 then (r1, paComplete, True)
                    else (r1, paContinue, False))
             else (r1\<lparr>silence_start := None\<rparr>, paContinue, False)
           else (r1, paContinue, False))"

text \<open>
  The stream as the callback sees it: the library calls the callback once per buffer, in
  arrival order, and stops calling it once it has returned \<^verbatim>\<open>paComplete\<close>. Each buffer
  comes with the clock reading of its callback. The second component counts the deferred
  stops scheduled on the way.
\<close>

fun deliver :: "real \<Rightarrow> (real \<times> frame) list \<Rightarrow> recorder \<Rightarrow> recorder \<times> nat" where
  "deliver threshold [] r = (r, 0)"
| "deliver threshold ((now, in_data) # rest) r =
     (case audio_callback threshold now in_data r of
        (r', flag, scheduled) \<Rightarrow>
          if flag = paComplete then (r', of_bool scheduled)
          else (case deliver threshold rest r' of (r'', n) \<Rightarrow> (r'', of_bool scheduled + n)))"

text \<open>
  How many of the buffers the callback was called with: all of them, or those up to and
  including the one at which it returned \<^verbatim>\<open>paComplete\<close>.
\<close>

fun received :: "real \<Rightarrow> (real \<times> frame) list \<Rightarrow> recorder \<Rightarrow> nat" where
  "received threshold [] r = 0"
| "received threshold ((now, in_data) # rest) r =
     (case audio_callback threshold now in_data r of
        (r', flag, scheduled) \<Rightarrow>
          if flag = paComplete then 1 else Suc (received threshold rest r'))"

section \<open>The controller (modules/core/main\_app.py)\<close>

text \<open>
  The application object holds the recorder and its own two flags. Calls into the window,
  the popup and the thread library are notifications to collaborators; they are recorded
  in \<open>ui_log\<close> in call order. \<open>TranscribeThread buf\<close> is the start of the thread running
  \<^verbatim>\<open>_transcribe_and_paste(buf)\<close>. The recorder already has a field \<open>is_recording\<close> and a
  function \<open>start_recording\<close>, so the application's flag \<^verbatim>\<open>self.is_recording\<close> is the field
  \<open>app_is_recording\<close> and its method \<^verbatim>\<open>start_recording\<close> is \<open>app_start_recording\<close>.
\<close>

datatype ui_event =
    Status string
  | RecordingIndicator bool
  | StartAnimation
  | StopAnimation
  | PopupStatus string
  | TranscribeThread frame
  | ResetStatusDelayed
  | VoiceAssistantThread

record app =
  audio_recorder :: recorder
  app_is_recording :: bool
  is_toggle_mode :: bool
  background_mode :: bool
  ui_log :: "ui_event list"

definition notify :: "ui_event list \<Rightarrow> app \<Rightarrow> app" where
  "notify evs a = a\<lparr>ui_log := ui_log a @ evs\<rparr>"

text \<open>\<^verbatim>\<open>VoiceTypeProApp.start_recording(auto_stop=False)\<close>.\<close>

definition app_start_recording :: "open_outcome \<Rightarrow> bool \<Rightarrow> app \<Rightarrow> app" where
  "app_start_recording dev auto_stop a =
     (case start_recording dev auto_stop (audio_recorder a) of
        (success, r) \<Rightarrow>
          let a1 = a\<lparr>audio_recorder := r\<rparr>
          in if success then
               notify ([Status ''Recording...'', RecordingIndicator True]
                       @ (if background_mode a1 then [StartAnimation] else []))
                 (a1\<lparr>app_is_recording := True\<rparr>)
             else notify [Status ''Failed to start recording''] a1)"

text \<open>
  \<^verbatim>\<open>stop_recording_and_transcribe()\<close>. The recorder's \<^verbatim>\<open>stop_recording\<close> catches its own
  exceptions, so the two flag assignments are always reached. The buffer goes to the
  transcription thread only when \<^verbatim>\<open>len(audio_data) > 1000\<close>.
\<close>

definition stop_recording_and_transcribe :: "close_outcome \<Rightarrow> app \<Rightarrow> app" where
  "stop_recording_and_transcribe dev a =
     (case stop_recording dev (audio_recorder a) of
        (audio, r) \<Rightarrow>
          let a1 = a\<lparr>audio_recorder := r, app_is_recording := False, is_toggle_mode := False\<rparr>;
              a2 = notify ([Status ''Processing...'', RecordingIndicator False]
                           @ (if background_mode a1 then [StopAnimation] else [])) a1;
              no_audio = notify ([Status ''No audio captured'']
                                 @ (if background_mode a2 then [PopupStatus ''No audio''] else [])
                                 @ [ResetStatusDelayed]) a2
          in case audio of
               None \<Rightarrow> no_audio
             | Some buf \<Rightarrow>
                 if length buf > 1000 then notify [TranscribeThread buf] a2 else no_audio)"

definition toggle_recording :: "open_outcome \<Rightarrow> close_outcome \<Rightarrow> app \<Rightarrow> app" where
  "toggle_recording dev_open dev_close a =
     (let a1 = a\<lparr>is_toggle_mode := True\<rparr>
      in if app_is_recording a1 then stop_recording_and_transcribe dev_close a1
         else app_start_recording dev_open False a1)"

definition on_push_to_talk_start :: "open_outcome \<Rightarrow> app \<Rightarrow> app" where
  "on_push_to_talk_start dev a =
     (if \<not> app_is_recording a then app_start_recording dev False a else a)"

definition on_push_to_talk_end :: "close_outcome \<Rightarrow> app \<Rightarrow> app" where
  "on_push_to_talk_end dev a =
     (if app_is_recording a \<and> \<not> is_toggle_mode a then stop_recording_and_transcribe dev a
      else a)"

definition on_toggle_recording :: "open_outcome \<Rightarrow> close_outcome \<Rightarrow> app \<Rightarrow> app" where
  "on_toggle_recording dev_open dev_close a = toggle_recording dev_open dev_close a"

definition on_auto_stop_triggered :: "close_outcome \<Rightarrow> app \<Rightarrow> app" where
  "on_auto_stop_triggered dev a =
     (if app_is_recording a then stop_recording_and_transcribe dev a else a)"

definition on_voice_assistant_activated :: "app \<Rightarrow> app" where
  "on_voice_assistant_activated a =
     (if \<not> app_is_recording a then notify [VoiceAssistantThread] a else a)"

text \<open>
  \<^verbatim>\<open>VoiceTypeProApp.__init__\<close>, as far as these fields go: it creates the recorder and
  installs \<^verbatim>\<open>self._on_auto_stop_triggered\<close> as its auto-stop callback.
\<close>

definition app_init :: "real \<Rightarrow> app" where
  "app_init timeout = \<lparr>audio_recorder = (recorder_init timeout)\<lparr>auto_stop_callback := True\<rparr>,
     app_is_recording = False, is_toggle_mode = False, background_mode = False, ui_log = []\<rparr>"

definition idle_app :: app where
  "idle_app = app_init 2"

section \<open>Strings: \<^verbatim>\<open>str.lower\<close>, \<^verbatim>\<open>str.strip\<close>, \<^verbatim>\<open>str.split\<close>\<close>

text \<open>
  Strings are lists of characters; the three methods are modelled on ASCII, where
  whitespace is the characters 9 to 13, 28 to 31 and the blank.
\<close>

definition is_space :: "char \<Rightarrow> bool" where
  "is_space c = (c \<in> set [CHR 0x09, CHR 0x0A, CHR 0x0B, CHR 0x0C, CHR 0x0D,
                           CHR 0x1C, CHR 0x1D, CHR 0x1E, CHR 0x1F, CHR '' ''])"

definition to_lower :: "char \<Rightarrow> char" where
  "to_lower c =
     (case map_of (zip ''ABCDEFGHIJKLMNOPQRSTUVWXYZ'' ''abcdefghijklmnopqrstuvwxyz'') c of
        Some l \<Rightarrow> l
      | None \<Rightarrow> c)"

definition lower :: "string \<Rightarrow> string" where
  "lower s = map to_lower s"

definition strip :: "string \<Rightarrow> string" where
  "strip s = rev (dropWhile is_space (rev (dropWhile is_space s)))"

text \<open>\<^verbatim>\<open>s.split()\<close> without argument: maximal runs of non-whitespace, no empty words.\<close>

fun split_from :: "string \<Rightarrow> string \<Rightarrow> string list" where
  "split_from w [] = (if w = [] then [] else [w])"
| "split_from w (c # cs) =
     (if is_space c then (if w = [] then split_from [] cs else w # split_from [] cs)
      else split_from (w @ [c]) cs)"

definition split :: "string \<Rightarrow> string list" where
  "split s = split_from [] s"

section \<open>The hotkey handlers (modules/features, modules/core/hotkey\_manager.py)\<close>

text \<open>
  The configured key lists are read from the configuration on every evaluation; they are
  parameters here. Both handlers normalise each name with \<^verbatim>\<open>k.lower().strip()\<close>. Each
  class has a field \<^verbatim>\<open>enabled\<close> and a method \<^verbatim>\<open>check_activation\<close>; they carry the class as
  a prefix (\<open>ptt_enabled\<close>, \<open>toggle_enabled\<close>, \<open>hk_enabled\<close>, \<open>ptt_check_activation\<close>,
  \<open>toggle_check_activation\<close>).
\<close>

definition normalize_keys :: "string set \<Rightarrow> string set" where
  "normalize_keys ks = (\<lambda>k. strip (lower k)) ` ks"

record push_to_talk_handler =
  is_active :: bool
  ptt_enabled :: bool

text \<open>
  \<^verbatim>\<open>PushToTalkHandler.check_activation(pressed_keys)\<close>. \<^verbatim>\<open>should_activate\<close> is the truth
  value of \<^verbatim>\<open>ptt_keys and ptt_keys.issubset(current_keys_normalized)\<close>.
\<close>

definition ptt_check_activation ::
  "string list \<Rightarrow> open_outcome \<Rightarrow> close_outcome \<Rightarrow> string set \<Rightarrow>
   push_to_talk_handler \<times> app \<Rightarrow> bool \<times> push_to_talk_handler \<times> app" where
  "ptt_check_activation hotkeys_push_to_talk dev_open dev_close pressed_keys ha =
     (case ha of (h, a) \<Rightarrow>
       if \<not> ptt_enabled h then (False, h, a)
       else
         let ptt_keys = normalize_keys (set hotkeys_push_to_talk);
             current_keys_normalized = normalize_keys pressed_keys;
             should_activate = (ptt_keys \<noteq> {} \<and> ptt_keys \<subseteq> current_keys_normalized)
         in if should_activate \<and> \<not> is_active h then
              (True, h\<lparr>is_active := True\<rparr>, on_push_to_talk_start dev_open a)
            else if \<not> should_activate \<and> is_active h then
              (True, h\<lparr>is_active := False\<rparr>, on_push_to_talk_end dev_close a)
            else (False, h, a))"

record toggle_recording_handler =
  last_toggle_time :: real
  toggle_enabled :: bool
  debounce_delay :: real

definition toggle_handler_init :: toggle_recording_handler where
  "toggle_handler_init = \<lparr>last_toggle_time = 0, toggle_enabled = True, debounce_delay = 1/2\<rparr>"

text \<open>
  \<^verbatim>\<open>ToggleRecordingHandler.check_activation(pressed_keys)\<close>, with \<open>current_time\<close> the reading
  of \<^verbatim>\<open>time.time()\<close>. The first component of the result is the method's return value: it is
  \<open>True\<close> exactly when \<^verbatim>\<open>on_toggle_recording()\<close> was called.
\<close>

definition toggle_check_activation ::
  "string list \<Rightarrow> open_outcome \<Rightarrow> close_outcome \<Rightarrow> real \<Rightarrow> string set \<Rightarrow>
   toggle_recording_handler \<times> app \<Rightarrow> bool \<times> toggle_recording_handler \<times> app" where
  "toggle_check_activation hotkeys_toggle_recording dev_open dev_close current_time pressed_keys ha =
     (case ha of (h, a) \<Rightarrow>
       if \<not> toggle_enabled h then (False, h, a)
       else
         let toggle_keys = normalize_keys (set hotkeys_toggle_recording);
             current_keys_normalized = normalize_keys pressed_keys
         in if toggle_keys \<noteq> {} \<and> toggle_keys \<subseteq> current_keys_normalized
               \<and> current_time - last_toggle_time h > debounce_delay h then
              (True, h\<lparr>last_toggle_time := current_time\<rparr>,
               on_toggle_recording dev_open dev_close a)
            else (False, h, a))"

text \<open>
  The hotkey manager keeps the set of pressed key names and runs the handlers:
  both on a key press, push-to-talk alone on a key release. \<open>key_name\<close> is the result of
  \<^verbatim>\<open>_get_key_name(key)\<close>; \<^verbatim>\<open>if key_name:\<close> rejects \<^verbatim>\<open>None\<close> and the empty string.
\<close>

record hotkey_config =
  hotkeys_push_to_talk :: "string list"
  hotkeys_toggle_recording :: "string list"

record hotkey_manager =
  current_keys :: "string set"
  hk_enabled :: bool
  push_to_talk :: push_to_talk_handler
  toggle_handler :: toggle_recording_handler

definition on_key_press ::
  "hotkey_config \<Rightarrow> open_outcome \<Rightarrow> close_outcome \<Rightarrow> real \<Rightarrow> string option \<Rightarrow>
   hotkey_manager \<times> app \<Rightarrow> bool \<times> hotkey_manager \<times> app" where
  "on_key_press cfg dev_open dev_close now key_name ma =
     (case ma of (m, a) \<Rightarrow>
       if \<not> hk_enabled m then (False, m, a)
       else case key_name of
              None \<Rightarrow> (False, m, a)
            | Some k \<Rightarrow>
                if k = [] then (False, m, a)
                else
                  let m1 = m\<lparr>current_keys := insert k (current_keys m)\<rparr>
                  in case ptt_check_activation (hotkeys_push_to_talk cfg) dev_open dev_close
                            (current_keys m1) (push_to_talk m1, a) of
                       (_, p, a1) \<Rightarrow>
                         case toggle_check_activation (hotkeys_toggle_recording cfg) dev_open
                                dev_close now (current_keys m1) (toggle_handler m1, a1) of
                           (fired, t, a2) \<Rightarrow>
                             (fired, m1\<lparr>push_to_talk := p, toggle_handler := t\<rparr>, a2))"

definition on_key_release ::
  "hotkey_config \<Rightarrow> open_outcome \<Rightarrow> close_outcome \<Rightarrow> string option \<Rightarrow>
   hotkey_manager \<times> app \<Rightarrow> hotkey_manager \<times> app" where
  "on_key_release cfg dev_open dev_close key_name ma =
     (case ma of (m, a) \<Rightarrow>
       if \<not> hk_enabled m then (m, a)
       else case key_name of
              None \<Rightarrow> (m, a)
            | Some k \<Rightarrow>
                if k = [] then (m, a)
                else
                  let m1 = m\<lparr>current_keys := current_keys m - {k}\<rparr>
                  in case ptt_check_activation (hotkeys_push_to_talk cfg) dev_open dev_close
                            (current_keys m1) (push_to_talk m1, a) of
                       (_, p, a1) \<Rightarrow> (m1\<lparr>push_to_talk := p\<rparr>, a1))"

text \<open>
  A run of keyboard events in arrival order: a press carries the clock reading the toggle
  handler takes. The first component lists, per event, whether the toggle handler called
  \<^verbatim>\<open>on_toggle_recording()\<close> (it is not consulted on a release).
\<close>

datatype key_event = Press real string | Release string

fun key_events ::
  "hotkey_config \<Rightarrow> open_outcome \<Rightarrow> close_outcome \<Rightarrow> key_event list \<Rightarrow>
   hotkey_manager \<times> app \<Rightarrow> bool list \<times> hotkey_manager \<times> app" where
  "key_events cfg dev_open dev_close [] ma = ([], ma)"
| "key_events cfg dev_open dev_close (Press now k # evs) ma =
     (case on_key_press cfg dev_open dev_close now (Some k) ma of
        (fired, m, a) \<Rightarrow>
          (case key_events cfg dev_open dev_close evs (m, a) of
             (fs, ma') \<Rightarrow> (fired # fs, ma')))"
| "key_events cfg dev_open dev_close (Release k # evs) ma =
     (case key_events cfg dev_open dev_close evs
             (on_key_release cfg dev_open dev_close (Some k) ma) of
        (fs, ma') \<Rightarrow> (False # fs, ma'))"

definition hotkey_manager_init :: hotkey_manager where
  "hotkey_manager_init = \<lparr>current_keys = {}, hk_enabled = True,
     push_to_talk = \<lparr>is_active = False, ptt_enabled = True\<rparr>,
     toggle_handler = toggle_handler_init\<rparr>"

definition default_hotkeys :: hotkey_config where
  "default_hotkeys = \<lparr>hotkeys_push_to_talk = [''ctrl'', ''space''],
     hotkeys_toggle_recording = [''ctrl'', ''shift'', ''r'']\<rparr>"

section \<open>The wake-word listener (modules/features/hey\_soffy.py)\<close>

record hey_soffy =
  is_listening :: bool
  wake_word :: string
  sample_rate :: int
  buffer_duration :: real
  audio_buffer :: "real list"
  last_detection_time :: real
  cooldown_period :: real

text \<open>The constructor, given the configured wake word and sample rate.\<close>

definition hey_soffy_init :: "string \<Rightarrow> int \<Rightarrow> hey_soffy" where
  "hey_soffy_init configured_wake_word configured_rate =
     \<lparr>is_listening = False, wake_word = lower configured_wake_word,
      sample_rate = configured_rate, buffer_duration = 3, audio_buffer = [],
      last_detection_time = 0, cooldown_period = 3\<rparr>"

text \<open>\<^verbatim>\<open>int(x)\<close> on a float truncates towards zero.\<close>

definition py_int :: "real \<Rightarrow> int" where
  "py_int x = (if x \<ge> 0 then \<lfloor>x\<rfloor> else \<lceil>x\<rceil>)"

text \<open>
  The slice \<^verbatim>\<open>xs[k:]\<close>: a negative \<open>k\<close> counts from the end and is clamped at the start
  of the list. So \<^verbatim>\<open>xs[-n:]\<close> is the last \<open>n\<close> elements for \<open>n > 0\<close>, and the whole list
  for \<open>n = 0\<close>.
\<close>

definition slice_from :: "int \<Rightarrow> 'a list \<Rightarrow> 'a list" where
  "slice_from k xs =
     (if k < 0 then drop (nat (int (length xs) + k)) xs else drop (nat k) xs)"

definition max_samples :: "hey_soffy \<Rightarrow> int" where
  "max_samples h = py_int (buffer_duration h * real_of_int (sample_rate h))"

text \<open>The buffer update of one loop iteration, done under \<^verbatim>\<open>self.buffer_lock\<close>.\<close>

definition extend_buffer :: "frame \<Rightarrow> hey_soffy \<Rightarrow> hey_soffy" where
  "extend_buffer audio_chunk h =
     (let buf = audio_buffer h @ audio_chunk
      in h\<lparr>audio_buffer :=
             (if int (length buf) > max_samples h then slice_from (- max_samples h) buf
              else buf)\<rparr>)"

definition detect_voice_activity :: "real \<Rightarrow> frame \<Rightarrow> bool" where
  "detect_voice_activity threshold audio_chunk = nan_greater (np_rms audio_chunk) threshold"

text \<open>\<^verbatim>\<open>np.max(np.abs(audio_data))\<close>; on an empty array numpy raises (\<open>None\<close>).\<close>

definition np_max_abs :: "frame \<Rightarrow> real option" where
  "np_max_abs xs =
     (case xs of [] \<Rightarrow> None | x # rest \<Rightarrow> Some (fold (\<lambda>y m. max m \<bar>y\<bar>) rest \<bar>x\<bar>))"

text \<open>
  The first half of \<^verbatim>\<open>_check_for_wake_word\<close>: the audio handed to the transcription
  engine, or \<open>None\<close> when the method returns \<^verbatim>\<open>False\<close> before calling it (less than one
  second buffered, or the exception of normalising an empty array).
\<close>

definition wake_word_audio :: "hey_soffy \<Rightarrow> frame option" where
  "wake_word_audio h =
     (if int (length (audio_buffer h)) < sample_rate h then None
      else
        let audio_data =
              slice_from (- py_int (real_of_int (sample_rate h) * (5 / 2))) (audio_buffer h)
        in case np_max_abs audio_data of
             None \<Rightarrow> None
           | Some m \<Rightarrow> Some (if m > 0 then map (\<lambda>x. x / m) audio_data else audio_data))"

text \<open>
  The second half: \<open>raw\<close> is \<^verbatim>\<open>result['text']\<close>. The loop
  \<^verbatim>\<open>for i in range(len(text_words) - len(wake_words) + 1)\<close> returns \<^verbatim>\<open>True\<close> at the first
  \<open>i\<close> with \<^verbatim>\<open>text_words[i:i+len(wake_words)] == wake_words\<close>.
\<close>

definition wake_word_in_text :: "string \<Rightarrow> string \<Rightarrow> bool" where
  "wake_word_in_text wake raw =
     (let text = strip (lower raw);
          wake_words = split wake;
          text_words = split text
      in list_ex (\<lambda>i. take (length wake_words) (drop i text_words) = wake_words)
           [0 ..< nat (int (length text_words) - int (length wake_words) + 1)])"

text \<open>
  \<^verbatim>\<open>_check_for_wake_word\<close>: \<open>transcribe\<close> is the engine, \<open>None\<close> when it raises (the
  exception is caught and the method returns \<^verbatim>\<open>False\<close>).
\<close>

definition check_for_wake_word :: "(frame \<Rightarrow> string option) \<Rightarrow> hey_soffy \<Rightarrow> bool" where
  "check_for_wake_word transcribe h =
     (case wake_word_audio h of
        None \<Rightarrow> False
      | Some audio \<Rightarrow>
          (case transcribe audio of
             None \<Rightarrow> False
           | Some raw \<Rightarrow> wake_word_in_text (wake_word h) raw))"

text \<open>
  One iteration of the loop of \<^verbatim>\<open>_listen_worker\<close>. \<open>data\<close> is what \<^verbatim>\<open>stream.read\<close>
  returned (\<open>None\<close>: it raised, the iteration is abandoned), \<open>now\<close> the reading of
  \<^verbatim>\<open>time.time()\<close>. The result says whether \<^verbatim>\<open>_check_for_wake_word\<close> was called and
  whether \<^verbatim>\<open>_on_wake_word_detected\<close> was.
\<close>

definition listen_iteration ::
  "real \<Rightarrow> (frame \<Rightarrow> string option) \<Rightarrow> real \<Rightarrow> frame option \<Rightarrow> hey_soffy \<Rightarrow>
   hey_soffy \<times> bool \<times> bool" where
  "listen_iteration threshold transcribe now data h =
     (case data of
        None \<Rightarrow> (h, False, False)
      | Some audio_chunk \<Rightarrow>
          let h1 = extend_buffer audio_chunk h
          in if detect_voice_activity threshold audio_chunk then
               if now - last_detection_time h1 > cooldown_period h1 then
                 if check_for_wake_word transcribe h1 then
                   (h1\<lparr>last_detection_time := now\<rparr>, True, True)
                 else (h1, True, False)
               else (h1, False, False)
             else (h1, False, False))"

text \<open>
  The loop \<^verbatim>\<open>while self.is_listening\<close> over the buffers read while it runs; each
  iteration has its clock reading, its buffer and what the engine would answer. The
  second component lists the times of the activations.
\<close>

fun listen_worker ::
  "real \<Rightarrow> (real \<times> frame option \<times> (frame \<Rightarrow> string option)) list \<Rightarrow> hey_soffy \<Rightarrow>
   hey_soffy \<times> real list" where
  "listen_worker threshold [] h = (h, [])"
| "listen_worker threshold ((now, data, transcribe) # rest) h =
     (if \<not> is_listening h then (h, [])
      else case listen_iteration threshold transcribe now data h of
             (h', checked, activated) \<Rightarrow>
               (case listen_worker threshold rest h' of
                  (h'', acts) \<Rightarrow> (h'', (if activated then [now] else []) @ acts)))"

text \<open>The rolling buffer alone, over a sequence of appended frames.\<close>

fun extend_all :: "frame list \<Rightarrow> hey_soffy \<Rightarrow> hey_soffy" where
  "extend_all [] h = h"
| "extend_all (c # cs) h = extend_all cs (extend_buffer c h)"

section \<open>Toggle handling in the single-file variant (app.py)\<close>

text \<open>
  The repository also ships the application as one file, app.py, whose \<^verbatim>\<open>HotkeyManager\<close>
  handles the toggle chord itself in \<^verbatim>\<open>_on_key_press\<close> and \<^verbatim>\<open>_on_key_release\<close>, under the
  comment \<^verbatim>\<open>Check for toggle recording (prevent multiple triggers)\<close>. Only that part of
  the two methods is modelled: the flag \<^verbatim>\<open>toggle_mode_active\<close> is set when the handler
  fires and cleared by a release after which the chord is no longer held.
\<close>

record legacy_hotkeys =
  legacy_current_keys :: "string set"
  toggle_mode_active :: bool
  legacy_last_toggle_time :: real

definition legacy_on_key_press ::
  "string list \<Rightarrow> real \<Rightarrow> string \<Rightarrow> legacy_hotkeys \<Rightarrow> bool \<times> legacy_hotkeys" where
  "legacy_on_key_press hotkeys_toggle current_time key_name m =
     (if key_name = [] then (False, m)
      else
        let m1 = m\<lparr>legacy_current_keys := insert key_name (legacy_current_keys m)\<rparr>;
            current_keys_normalized = normalize_keys (legacy_current_keys m1);
            toggle_keys = normalize_keys (set hotkeys_toggle)
        in if toggle_keys \<noteq> {} \<and> toggle_keys \<subseteq> current_keys_normalized
              \<and> \<not> toggle_mode_active m1
              \<and> current_time - legacy_last_toggle_time m1 > 1/2 then
             (True, m1\<lparr>toggle_mode_active := True, legacy_last_toggle_time := current_time\<rparr>)
           else (False, m1))"

definition legacy_on_key_release :: "string list \<Rightarrow> string \<Rightarrow> legacy_hotkeys \<Rightarrow> legacy_hotkeys" where
  "legacy_on_key_release hotkeys_toggle key_name m =
     (if key_name = [] then m
      else
        let m1 = m\<lparr>legacy_current_keys := legacy_current_keys m - {key_name}\<rparr>;
            current_keys_normalized = normalize_keys (legacy_current_keys m1);
            toggle_keys = normalize_keys (set hotkeys_toggle)
        in if \<not> toggle_keys \<subseteq> current_keys_normalized then m1\<lparr>toggle_mode_active := False\<rparr>
           else m1)"

fun legacy_key_events :: "string list \<Rightarrow> key_event list \<Rightarrow> legacy_hotkeys \<Rightarrow> bool list" where
  "legacy_key_events hotkeys_toggle [] m = []"
| "legacy_key_events hotkeys_toggle (Press now k # evs) m =
     (case legacy_on_key_press hotkeys_toggle now k m of
        (fired, m') \<Rightarrow> fired # legacy_key_events hotkeys_toggle evs m')"
| "legacy_key_events hotkeys_toggle (Release k # evs) m =
     False # legacy_key_events hotkeys_toggle evs (legacy_on_key_release hotkeys_toggle k m)"

definition legacy_hotkeys_init :: legacy_hotkeys where
  "legacy_hotkeys_init =
     \<lparr>legacy_current_keys = {}, toggle_mode_active = False, legacy_last_toggle_time = 0\<rparr>"

section \<open>Threads calling \<^verbatim>\<open>start_recording\<close> concurrently\<close>

text \<open>
  The body of \<^verbatim>\<open>AudioRecorder.start_recording\<close> as the steps one thread takes, so that
  calls from several threads can interleave. A thread is at \<open>Entry\<close> before
  \<^verbatim>\<open>with self._record_lock\<close>, at \<open>Holding\<close> once it has the lock and is about to test
  \<^verbatim>\<open>self.is_recording\<close>, at \<open>Opening\<close> after the four assignments and before the stream is
  opened, at \<open>Leaving ok\<close> when about to leave the \<^verbatim>\<open>with\<close> block returning \<open>ok\<close>, and at
  \<open>Returned ok\<close> afterwards. The lock is free or owned by one thread; acquiring it is
  possible only when it is free.
\<close>

datatype pc = Entry | Holding | Opening | Leaving bool | Returned bool

record system =
  lock_owner :: "nat option"
  shared :: recorder
  threads :: "nat \<Rightarrow> pc"

definition goto :: "nat \<Rightarrow> pc \<Rightarrow> system \<Rightarrow> system" where
  "goto t p s = s\<lparr>threads := (threads s)(t := p)\<rparr>"

inductive step :: "system \<Rightarrow> system \<Rightarrow> bool" where
  acquire:
    "threads s t = Entry \<Longrightarrow> lock_owner s = None \<Longrightarrow>
     step s (goto t Holding (s\<lparr>lock_owner := Some t\<rparr>))"
| already_recording:
    "threads s t = Holding \<Longrightarrow> is_recording (shared s) \<Longrightarrow>
     step s (goto t (Leaving False) s)"
| set_flags:
    "threads s t = Holding \<Longrightarrow> \<not> is_recording (shared s) \<Longrightarrow>
     step s (goto t Opening
       (s\<lparr>shared := (shared s)\<lparr>is_recording := True, auto_stop_enabled := auto_stop,
                                audio_data := [], silence_start := None\<rparr>\<rparr>))"
| opened:
    "threads s t = Opening \<Longrightarrow>
     step s (goto t (Leaving True) (s\<lparr>shared := (shared s)\<lparr>stream := True\<rparr>\<rparr>))"
| open_raises:
    "threads s t = Opening \<Longrightarrow>
     step s (goto t (Leaving False) (s\<lparr>shared := (shared s)\<lparr>is_recording := False\<rparr>\<rparr>))"
| start_stream_raises:
    "threads s t = Opening \<Longrightarrow>
     step s (goto t (Leaving False)
       (s\<lparr>shared := (shared s)\<lparr>stream := True, is_recording := False\<rparr>\<rparr>))"
| release:
    "threads s t = Leaving ok \<Longrightarrow>
     step s (goto t (Returned ok) (s\<lparr>lock_owner := None\<rparr>))"

definition initial :: "recorder \<Rightarrow> system" where
  "initial r = \<lparr>lock_owner = None, shared = r, threads = (\<lambda>t. Entry)\<rparr>"

fun in_critical :: "pc \<Rightarrow> bool" where
  "in_critical Holding = True"
| "in_critical Opening = True"
| "in_critical (Leaving ok) = True"
| "in_critical p = False"

fun won :: "pc \<Rightarrow> bool" where
  "won (Leaving ok) = ok"
| "won (Returned ok) = ok"
| "won p = False"

definition lock_invariant :: "system \<Rightarrow> bool" where
  "lock_invariant s =
     ((\<forall>t. in_critical (threads s t) \<longleftrightarrow> lock_owner s = Some t)
      \<and> (\<forall>t. won (threads s t) \<longrightarrow> is_recording (shared s))
      \<and> (\<forall>t. threads s t = Opening \<longrightarrow>
            is_recording (shared s) \<and> (\<forall>u. \<not> won (threads s u)))
      \<and> (\<forall>t u. won (threads s t) \<and> won (threads s u) \<longrightarrow> t = u))"

text \<open>The state after thread \<open>t\<close> has run its call alone, as the atomic model computes it.\<close>

definition call_result :: "open_outcome \<Rightarrow> bool \<Rightarrow> nat \<Rightarrow> system \<Rightarrow> system" where
  "call_result dev auto_stop t s =
     s\<lparr>shared := snd (start_recording dev auto_stop (shared s)),
       threads := (threads s)(t := Returned (fst (start_recording dev auto_stop (shared s))))\<rparr>"

section \<open>Auxiliary notions for the statements\<close>

text \<open>The notifications a controller call added to the log.\<close>

definition new_events :: "app \<Rightarrow> app \<Rightarrow> ui_event list" where
  "new_events a a' = drop (length (ui_log a)) (ui_log a')"

text \<open>
  A session in which the callback runs its auto-stop branch, and the callback's own test
  \<^verbatim>\<open>rms < threshold\<close> for a silent frame.
\<close>

definition auto_stop_session :: "recorder \<Rightarrow> bool" where
  "auto_stop_session r = (is_recording r \<and> auto_stop_enabled r \<and> auto_stop_callback r)"

definition silent :: "real \<Rightarrow> frame \<Rightarrow> bool" where
  "silent threshold f = nan_less (np_rms f) threshold"

text \<open>The last \<open>n\<close> elements of a list.\<close>

definition last_n :: "nat \<Rightarrow> 'a list \<Rightarrow> 'a list" where
  "last_n n xs = drop (length xs - n) xs"

text \<open>The listener after the buffer update of an iteration (unchanged when the read failed).\<close>

definition buffered :: "frame option \<Rightarrow> hey_soffy \<Rightarrow> hey_soffy" where
  "buffered data h = (case data of None \<Rightarrow> h | Some c \<Rightarrow> extend_buffer c h)"

text \<open>Concrete states used in the examples.\<close>

definition auto_session :: recorder where
  "auto_session = snd (start_recording OpenOk True idle_recorder)"

definition listening :: hey_soffy where
  "listening = (hey_soffy_init ''Hey Soffy'' 2)\<lparr>is_listening := True\<rparr>"

definition toggle_then_ptt :: "key_event list" where
  "toggle_then_ptt = [Press 10 ''ctrl'', Press 11 ''shift'', Press 12 ''r'', Release ''r'',
     Release ''shift'', Press 13 ''space'']"

definition toggle_run :: "bool list \<times> hotkey_manager \<times> app" where
  "toggle_run = key_events default_hotkeys OpenOk CloseOk toggle_then_ptt
                  (hotkey_manager_init, idle_app)"

definition three_frames :: "(real \<times> frame) list" where
  "three_frames = [(0, [1, 2]), (1, [3]), (2, [4, 5])]"

definition silent_frames :: "(real \<times> frame) list" where
  "silent_frames = [(0, [0]), (1, [0, 0]), (21/10, [0, 0, 0]), (3, [0])]"

definition failed_toggle_run :: "bool list \<times> hotkey_manager \<times> app" where
  "failed_toggle_run = key_events default_hotkeys OpenRaises CloseOk
     [Press 10 ''ctrl'', Press 11 ''shift'', Press 12 ''r'', Release ''r'', Release ''shift'']
     (hotkey_manager_init, idle_app)"

definition push_to_talk_after_failed_toggle :: "bool list \<times> hotkey_manager \<times> app" where
  "push_to_talk_after_failed_toggle = key_events default_hotkeys OpenOk CloseOk
     [Press 20 ''space'', Release ''space''] (snd failed_toggle_run)"

definition two_calls :: system where
  "two_calls = call_result OpenOk True 1 (call_result OpenOk False 0 (initial idle_recorder))"

section \<open>Properties of the recorder\<close>

lemma start_recording_active: "is_recording r \<Longrightarrow> start_recording dev a r = (False, r)"
  by (simp add: start_recording_def)

lemma start_recording_success:
  "fst (start_recording dev a r) \<Longrightarrow> is_recording (snd (start_recording dev a r))"
  by (cases dev) (auto simp: start_recording_def Let_def split: if_splits)

lemma start_requests_active:
  "is_recording r \<Longrightarrow> start_requests reqs r = (replicate (length reqs) False, r)"
  by (induction reqs) (auto simp: start_recording_active)

lemma start_requests_at_most_one:
  "length (filter (\<lambda>ok. ok) (fst (start_requests reqs r))) \<le> 1"
proof (induction reqs arbitrary: r)
  case Nil
  show ?case by simp
next
  case (Cons q reqs)
  obtain dev a where q: "q = (dev, a)" by (cases q)
  obtain ok r' where s: "start_recording dev a r = (ok, r')" by (cases "start_recording dev a r")
  show ?case
  proof (cases ok)
    case True
    with s have "is_recording r'" using start_recording_success [of dev a r] by simp
    then have "start_requests reqs r' = (replicate (length reqs) False, r')"
      by (rule start_requests_active)
    with q s True show ?thesis by simp
  next
    case False
    obtain oks r'' where t: "start_requests reqs r' = (oks, r'')"
      by (cases "start_requests reqs r'")
    with Cons.IH [of r'] have "length (filter (\<lambda>ok. ok) oks) \<le> 1" by simp
    with q s t False show ?thesis by simp
  qed
qed

subsection \<open>Interleaved calls: the lock makes the test and the assignment one step\<close>

lemma lock_invariant_initial: "lock_invariant (initial r)"
  by (simp add: lock_invariant_def initial_def)

lemma lock_owner_unique:
  "lock_invariant s \<Longrightarrow> in_critical (threads s t) \<Longrightarrow> in_critical (threads s u) \<Longrightarrow> t = u"
  by (simp add: lock_invariant_def)

lemma inv_acquire:
  "threads s t = Entry \<Longrightarrow> lock_owner s = None \<Longrightarrow> lock_invariant s \<Longrightarrow>
   lock_invariant (goto t Holding (s\<lparr>lock_owner := Some t\<rparr>))"
  unfolding lock_invariant_def goto_def by auto

lemma inv_already:
  "threads s t = Holding \<Longrightarrow> lock_invariant s \<Longrightarrow> lock_invariant (goto t (Leaving False) s)"
  unfolding lock_invariant_def goto_def by auto

lemma inv_set_flags:
  assumes "threads s t = Holding" "\<not> is_recording (shared s)" "lock_invariant s"
  shows "lock_invariant (goto t Opening
       (s\<lparr>shared := (shared s)\<lparr>is_recording := True, auto_stop_enabled := auto_stop,
                                audio_data := [], silence_start := None\<rparr>\<rparr>))"
proof -
  have nowin: "\<forall>u. \<not> won (threads s u)" using assms by (auto simp: lock_invariant_def)
  have others: "\<forall>u. u \<noteq> t \<longrightarrow> \<not> in_critical (threads s u)"
    using assms lock_owner_unique [of s t] by auto
  have own: "lock_owner s = Some t" using assms by (auto simp: lock_invariant_def)
  show ?thesis
    unfolding lock_invariant_def goto_def using nowin others own by auto
qed

lemma inv_opened:
  assumes "threads s t = Opening" "lock_invariant s"
  shows "lock_invariant (goto t (Leaving True) (s\<lparr>shared := (shared s)\<lparr>stream := True\<rparr>\<rparr>))"
proof -
  have nowin: "\<forall>u. \<not> won (threads s u)" and rec: "is_recording (shared s)"
    using assms by (auto simp: lock_invariant_def)
  have others: "\<forall>u. u \<noteq> t \<longrightarrow> \<not> in_critical (threads s u)"
    using assms lock_owner_unique [of s t] by auto
  have own: "lock_owner s = Some t" using assms by (auto simp: lock_invariant_def)
  show ?thesis
    unfolding lock_invariant_def goto_def using nowin others own rec by auto
qed

lemma inv_open_fails:
  assumes "threads s t = Opening" "lock_invariant s" "\<not> is_recording r'"
  shows "lock_invariant (goto t (Leaving False) (s\<lparr>shared := r'\<rparr>))"
proof -
  have nowin: "\<forall>u. \<not> won (threads s u)"
    using assms by (auto simp: lock_invariant_def)
  have others: "\<forall>u. u \<noteq> t \<longrightarrow> \<not> in_critical (threads s u)"
    using assms lock_owner_unique [of s t] by auto
  have own: "lock_owner s = Some t" using assms by (auto simp: lock_invariant_def)
  show ?thesis
    unfolding lock_invariant_def goto_def using nowin others own assms(3) by auto
qed

lemma inv_release:
  assumes "threads s t = Leaving ok" "lock_invariant s"
  shows "lock_invariant (goto t (Returned ok) (s\<lparr>lock_owner := None\<rparr>))"
proof -
  have others: "\<forall>u. u \<noteq> t \<longrightarrow> \<not> in_critical (threads s u)"
    using assms lock_owner_unique [of s t] by auto
  have own: "lock_owner s = Some t" using assms by (auto simp: lock_invariant_def)
  have w: "\<forall>u. won (threads s u) \<longrightarrow> is_recording (shared s)"
    and o: "\<forall>u. threads s u = Opening \<longrightarrow> is_recording (shared s) \<and> (\<forall>v. \<not> won (threads s v))"
    and u: "\<forall>u v. won (threads s u) \<and> won (threads s v) \<longrightarrow> u = v"
    using assms by (auto simp: lock_invariant_def)
  have t: "won (threads s t) = ok" using assms by simp
  show ?thesis
    unfolding lock_invariant_def goto_def using others own w o u t
    by (auto split: if_splits)
qed

lemma lock_invariant_step: "step s s' \<Longrightarrow> lock_invariant s \<Longrightarrow> lock_invariant s'"
proof (induction rule: step.induct)
  case (acquire s t) then show ?case by (rule inv_acquire)
next
  case (already_recording s t) then show ?case by (simp add: inv_already)
next
  case (set_flags s t auto_stop) then show ?case by (rule inv_set_flags)
next
  case (opened s t) then show ?case by (simp add: inv_opened)
next
  case (open_raises s t) then show ?case by (simp add: inv_open_fails)
next
  case (start_stream_raises s t) then show ?case by (simp add: inv_open_fails)
next
  case (release s t ok) then show ?case by (simp add: inv_release)
qed

lemma lock_invariant_reachable: "step\<^sup>*\<^sup>* (initial r) s \<Longrightarrow> lock_invariant s"
  by (induction rule: rtranclp_induct) (auto intro: lock_invariant_initial lock_invariant_step)

text \<open>
  One thread running its call without interruption takes the system where the atomic
  \<open>start_recording\<close> says, whatever the device does.
\<close>

lemma call_runs_as_start_recording:
  assumes e: "threads s t = Entry" and l: "lock_owner s = None"
  shows "step\<^sup>*\<^sup>* s (call_result dev auto_stop t s)"
proof -
  let ?s1 = "goto t Holding (s\<lparr>lock_owner := Some t\<rparr>)"
  have s1: "step s ?s1" using e l by (rule acquire)
  have h1: "threads ?s1 t = Holding" by (simp add: goto_def)
  show ?thesis
  proof (cases "is_recording (shared s)")
    case True
    let ?s2 = "goto t (Leaving False) ?s1"
    have s2: "step ?s1 ?s2" using h1 True by (intro already_recording) (simp_all add: goto_def)
    have "step ?s2 (goto t (Returned False) (?s2\<lparr>lock_owner := None\<rparr>))"
      by (intro release) (simp add: goto_def)
    moreover have "goto t (Returned False) (?s2\<lparr>lock_owner := None\<rparr>) = call_result dev auto_stop t s"
      using True l by (simp add: goto_def call_result_def start_recording_def)
    ultimately show ?thesis using s1 s2 by (metis converse_rtranclp_into_rtranclp r_into_rtranclp)
  next
    case False
    let ?r1 = "(shared s)\<lparr>is_recording := True, auto_stop_enabled := auto_stop,
                                audio_data := [], silence_start := None\<rparr>"
    let ?s2 = "goto t Opening (?s1\<lparr>shared := ?r1\<rparr>)"
    have s2: "step ?s1 ?s2"
      using set_flags [of ?s1 t auto_stop] h1 False by (simp add: goto_def)
    have h2: "threads ?s2 t = Opening" by (simp add: goto_def)
    have chain: "step\<^sup>*\<^sup>* s (call_result dev auto_stop t s)"
      if st: "step ?s2 s3" and at: "threads s3 t = Leaving ok"
        and eq: "goto t (Returned ok) (s3\<lparr>lock_owner := None\<rparr>) = call_result dev auto_stop t s"
      for s3 ok
    proof -
      have "step s3 (call_result dev auto_stop t s)" using release [OF at] eq by simp
      with s1 s2 st show ?thesis by (meson converse_rtranclp_into_rtranclp r_into_rtranclp)
    qed
    show ?thesis
    proof (cases dev)
      case OpenOk
      show ?thesis
      proof (rule chain [OF opened [OF h2]])
        show "threads (goto t (Leaving True) (?s2\<lparr>shared := (shared ?s2)\<lparr>stream := True\<rparr>\<rparr>)) t
              = Leaving True"
          by (simp add: goto_def)
        show "goto t (Returned True)
                (goto t (Leaving True) (?s2\<lparr>shared := (shared ?s2)\<lparr>stream := True\<rparr>\<rparr>)
                   \<lparr>lock_owner := None\<rparr>) = call_result dev auto_stop t s"
          using False OpenOk l by (simp add: goto_def call_result_def start_recording_def)
      qed
    next
      case OpenRaises
      show ?thesis
      proof (rule chain [OF open_raises [OF h2]])
        show "threads (goto t (Leaving False)
                 (?s2\<lparr>shared := (shared ?s2)\<lparr>is_recording := False\<rparr>\<rparr>)) t = Leaving False"
          by (simp add: goto_def)
        show "goto t (Returned False)
                (goto t (Leaving False) (?s2\<lparr>shared := (shared ?s2)\<lparr>is_recording := False\<rparr>\<rparr>)
                   \<lparr>lock_owner := None\<rparr>) = call_result dev auto_stop t s"
          using False OpenRaises l by (simp add: goto_def call_result_def start_recording_def)
      qed
    next
      case StartStreamRaises
      show ?thesis
      proof (rule chain [OF start_stream_raises [OF h2]])
        show "threads (goto t (Leaving False)
                 (?s2\<lparr>shared := (shared ?s2)\<lparr>stream := True, is_recording := False\<rparr>\<rparr>)) t
              = Leaving False"
          by (simp add: goto_def)
        show "goto t (Returned False)
                (goto t (Leaving False)
                   (?s2\<lparr>shared := (shared ?s2)\<lparr>stream := True, is_recording := False\<rparr>\<rparr>)
                   \<lparr>lock_owner := None\<rparr>) = call_result dev auto_stop t s"
          using False StartStreamRaises l
          by (simp add: goto_def call_result_def start_recording_def)
      qed
    qed
  qed
qed

lemma two_calls_reachable: "step\<^sup>*\<^sup>* (initial idle_recorder) two_calls"
proof -
  let ?s1 = "call_result OpenOk False 0 (initial idle_recorder)"
  have "step\<^sup>*\<^sup>* (initial idle_recorder) ?s1"
    by (rule call_runs_as_start_recording) (simp_all add: initial_def)
  moreover have "step\<^sup>*\<^sup>* ?s1 (call_result OpenOk True 1 ?s1)"
    by (rule call_runs_as_start_recording) (simp_all add: initial_def call_result_def)
  ultimately show ?thesis unfolding two_calls_def by (rule rtranclp_trans)
qed

text \<open>
  Claim C1. A \<^verbatim>\<open>start_recording\<close> call on a recorder that is already recording returns
  \<^verbatim>\<open>False\<close> and leaves every field, the captured frames included, as it was; of any
  sequence of start requests at most one returns \<^verbatim>\<open>True\<close>; and when the calls come from
  several threads, in every reachable state at most one thread has obtained \<^verbatim>\<open>True\<close>, and a
  thread is between the test of \<^verbatim>\<open>is_recording\<close> and the end of the call only while it
  owns the lock, so no two threads are there together.
\<close>

theorem start_recording_exclusive:
  "(is_recording r \<longrightarrow> start_recording dev a r = (False, r))
   \<and> length (filter (\<lambda>ok. ok) (fst (start_requests reqs r'))) \<le> 1
   \<and> (step\<^sup>*\<^sup>* (initial r0) s \<longrightarrow>
         (\<forall>t u. threads s t = Returned True \<and> threads s u = Returned True \<longrightarrow> t = u)
         \<and> (\<forall>t. in_critical (threads s t) \<longleftrightarrow> lock_owner s = Some t)
         \<and> (\<forall>t u. in_critical (threads s t) \<and> in_critical (threads s u) \<longrightarrow> t = u))"
proof (intro conjI impI)
  show "start_recording dev a r = (False, r)" if "is_recording r"
    using that by (rule start_recording_active)
  show "length (filter (\<lambda>ok. ok) (fst (start_requests reqs r'))) \<le> 1"
    by (rule start_requests_at_most_one)
next
  assume "step\<^sup>*\<^sup>* (initial r0) s"
  then have inv: "lock_invariant s" by (rule lock_invariant_reachable)
  show "\<forall>t u. threads s t = Returned True \<and> threads s u = Returned True \<longrightarrow> t = u"
  proof (intro allI impI)
    fix t u assume "threads s t = Returned True \<and> threads s u = Returned True"
    then have "won (threads s t) \<and> won (threads s u)" by simp
    with inv show "t = u" unfolding lock_invariant_def by blast
  qed
  show "\<forall>t. in_critical (threads s t) \<longleftrightarrow> lock_owner s = Some t"
    using inv by (simp add: lock_invariant_def)
  show "\<forall>t u. in_critical (threads s t) \<and> in_critical (threads s u) \<longrightarrow> t = u"
    using inv lock_owner_unique by blast
qed

theorem start_recording_exclusive_witness:
  "is_recording (snd (start_recording OpenOk False idle_recorder))
   \<and> start_recording OpenOk True (snd (start_recording OpenOk False idle_recorder))
       = (False, snd (start_recording OpenOk False idle_recorder))
   \<and> fst (start_requests [(OpenRaises, False), (OpenOk, False), (OpenOk, True)] idle_recorder)
       = [False, True, False]
   \<and> step\<^sup>*\<^sup>* (initial idle_recorder) two_calls
   \<and> threads two_calls 0 = Returned True \<and> threads two_calls 1 = Returned False
   \<and> lock_owner two_calls = None"
  using start_recording_exclusive [of "snd (start_recording OpenOk False idle_recorder)" OpenOk True
       "[(OpenRaises, False), (OpenOk, False), (OpenOk, True)]" idle_recorder idle_recorder two_calls]
    two_calls_reachable
  by (simp add: idle_recorder_def recorder_init_def start_recording_def two_calls_def call_result_def initial_def)

subsection \<open>Stopping\<close>

lemma stop_recording_idle: "\<not> is_recording r \<Longrightarrow> stop_recording dev r = (None, r)"
  by (simp add: stop_recording_def)

lemma stop_recording_clears: "\<not> is_recording (snd (stop_recording dev r))"
  by (simp add: stop_recording_def Let_def)

text \<open>
  Claim C2. \<^verbatim>\<open>stop_recording\<close> is idempotent: on a recorder that is not recording it
  returns \<^verbatim>\<open>None\<close> and changes no field, and a second call right after a first one
  (whatever the device did in either) returns \<^verbatim>\<open>None\<close> and leaves the state the first call
  produced.
\<close>

theorem stop_recording_idempotent:
  "(\<not> is_recording r \<longrightarrow> stop_recording dev r = (None, r))
   \<and> stop_recording dev2 (snd (stop_recording dev1 r')) = (None, snd (stop_recording dev1 r'))"
  using stop_recording_idle [of r dev]
    stop_recording_idle [OF stop_recording_clears, of dev2 dev1 r'] by blast

theorem stop_recording_idempotent_witness:
  "\<not> is_recording idle_recorder
   \<and> stop_recording CloseOk idle_recorder = (None, idle_recorder)
   \<and> stop_recording CloseOk
         (snd (stop_recording CloseRaises
                 (idle_recorder\<lparr>is_recording := True, stream := True, audio_data := [[1]]\<rparr>)))
       = (None, snd (stop_recording CloseRaises
                 (idle_recorder\<lparr>is_recording := True, stream := True, audio_data := [[1]]\<rparr>)))"
  using stop_recording_idempotent [of idle_recorder CloseOk CloseOk CloseRaises
      "idle_recorder\<lparr>is_recording := True, stream := True, audio_data := [[1]]\<rparr>"]
  by (simp add: idle_recorder_def recorder_init_def)

subsection \<open>What a stop returns\<close>

lemma audio_callback_plain:
  "is_recording r \<Longrightarrow> \<not> auto_stop_enabled r \<Longrightarrow>
   audio_callback th now f r = (r\<lparr>audio_data := audio_data r @ [f]\<rparr>, paContinue, False)"
  by (simp add: audio_callback_def)

lemma deliver_plain:
  "is_recording r \<Longrightarrow> \<not> auto_stop_enabled r \<Longrightarrow>
   deliver th tfs r = (r\<lparr>audio_data := audio_data r @ map snd tfs\<rparr>, 0)"
proof (induction tfs arbitrary: r)
  case Nil
  then show ?case by simp
next
  case (Cons tf tfs)
  obtain now f where tf: "tf = (now, f)" by (cases tf)
  let ?r' = "r\<lparr>audio_data := audio_data r @ [f]\<rparr>"
  have "deliver th tfs ?r' = (?r'\<lparr>audio_data := audio_data ?r' @ map snd tfs\<rparr>, 0)"
    using Cons.prems by (intro Cons.IH) simp_all
  with Cons.prems tf show ?case by (simp add: audio_callback_plain)
qed

lemma start_recording_ok:
  "\<not> is_recording r \<Longrightarrow>
   start_recording OpenOk a r =
     (True, r\<lparr>is_recording := True, auto_stop_enabled := a, audio_data := [],
             silence_start := None, stream := True\<rparr>)"
  by (simp add: start_recording_def)

lemma stop_recording_ok:
  "is_recording r \<Longrightarrow>
   stop_recording CloseOk r =
     (if audio_data r = [] then None else Some (concat (audio_data r)),
      r\<lparr>is_recording := False, auto_stop_enabled := False, stream := False\<rparr>)"
  by (cases r) (simp add: stop_recording_def Let_def)

lemma callback_appends:
  "is_recording r \<Longrightarrow>
   audio_data (fst (audio_callback th now f r)) = audio_data r @ [f]
   \<and> is_recording (fst (audio_callback th now f r))"
  by (auto simp: audio_callback_def Let_def split: option.splits)

lemma deliver_appends_received:
  "is_recording r \<Longrightarrow>
   audio_data (fst (deliver th tfs r)) = audio_data r @ map snd (take (received th tfs r) tfs)
   \<and> is_recording (fst (deliver th tfs r))"
proof (induction tfs arbitrary: r)
  case Nil
  then show ?case by simp
next
  case (Cons tf tfs)
  obtain now f where tf: "tf = (now, f)" by (cases tf)
  obtain r' flag sch where cb: "audio_callback th now f r = (r', flag, sch)"
    by (cases "audio_callback th now f r")
  have r': "is_recording r'" "audio_data r' = audio_data r @ [f]"
    using cb Cons.prems callback_appends [of r th now f] by simp_all
  show ?case
  proof (cases "flag = paComplete")
    case True
    with tf cb r' show ?thesis by simp
  next
    case False
    with tf cb r' Cons.IH [OF r'(1)] show ?thesis
      by (cases "deliver th tfs r'") simp
  qed
qed

lemma received_plain:
  "is_recording r \<Longrightarrow> \<not> auto_stop_enabled r \<Longrightarrow> received th tfs r = length tfs"
proof (induction tfs arbitrary: r)
  case Nil
  show ?case by simp
next
  case (Cons tf tfs)
  obtain now f where tf: "tf = (now, f)" by (cases tf)
  have "received th tfs (r\<lparr>audio_data := audio_data r @ [f]\<rparr>) = length tfs"
    using Cons.prems by (intro Cons.IH) simp_all
  with Cons.prems tf show ?case by (simp add: audio_callback_plain)
qed

text \<open>
  Claim C3 as the code has it, for every Active session. Every callback on an Active
  recorder appends its frame, so after the frames \<open>tfs\<close> have been offered the recorder
  holds the frames the callback was called with, in arrival order, after those it held
  before; a stop during which the stream closes without error returns their
  concatenation, or \<^verbatim>\<open>None\<close> when there is none, and leaves the recorder not recording.
  After a successful start, with or without auto-stop, these are exactly the frames
  appended since that start; without auto-stop they are all of \<open>tfs\<close>. The recorder
  applies no minimum length; the controller does: it hands the buffer to the
  transcription thread when it has more than 1000 samples and otherwise reports
  \<^verbatim>\<open>No audio captured\<close>.
\<close>

theorem stop_recording_returns_frames:
  assumes idle: "\<not> is_recording r0"
    and started: "r1 = snd (start_recording OpenOk auto_stop r0)"
    and fed: "r2 = fst (deliver th tfs r1)"
  shows "audio_data r2 = map snd (take (received th tfs r1) tfs)
         \<and> fst (stop_recording CloseOk r2) =
             (if audio_data r2 = [] then None else Some (concat (audio_data r2)))
         \<and> (\<not> auto_stop \<longrightarrow>
              fst (stop_recording CloseOk r2) =
                (if tfs = [] then None else Some (concat (map snd tfs))))
         \<and> \<not> is_recording (snd (stop_recording CloseOk r2))
         \<and> new_events (a\<lparr>audio_recorder := r2\<rparr>)
              (stop_recording_and_transcribe CloseOk (a\<lparr>audio_recorder := r2\<rparr>)) =
             [Status ''Processing...'', RecordingIndicator False]
             @ (if background_mode a then [StopAnimation] else [])
             @ (if 1000 < length (concat (audio_data r2))
                then [TranscribeThread (concat (audio_data r2))]
                else [Status ''No audio captured'']
                     @ (if background_mode a then [PopupStatus ''No audio''] else [])
                     @ [ResetStatusDelayed])
         \<and> (is_recording r \<longrightarrow>
              fst (stop_recording CloseOk (fst (deliver th tfs r))) =
                (if audio_data r @ map snd (take (received th tfs r) tfs) = [] then None
                 else Some (concat (audio_data r @ map snd (take (received th tfs r) tfs))))
              \<and> \<not> is_recording (snd (stop_recording CloseOk (fst (deliver th tfs r)))))"
proof -
  let ?r1 = "r0\<lparr>is_recording := True, auto_stop_enabled := auto_stop, audio_data := [],
             silence_start := None, stream := True\<rparr>"
  have r1: "r1 = ?r1" using idle started by (simp add: start_recording_ok)
  then have rec1: "is_recording r1" and empty: "audio_data r1 = []" by simp_all
  have data: "audio_data r2 = map snd (take (received th tfs r1) tfs)"
    and rec: "is_recording r2"
    using deliver_appends_received [OF rec1, of th tfs] fed empty by simp_all
  have stop: "stop_recording CloseOk r2 =
     (if audio_data r2 = [] then None else Some (concat (audio_data r2)),
      r2\<lparr>is_recording := False, auto_stop_enabled := False, stream := False\<rparr>)"
    by (rule stop_recording_ok [OF rec])
  have plain: "fst (stop_recording CloseOk r2) =
                (if tfs = [] then None else Some (concat (map snd tfs)))" if "\<not> auto_stop"
  proof -
    have "received th tfs r1 = length tfs"
      using that r1 by (intro received_plain) simp_all
    with data stop show ?thesis by simp
  qed
  have ev: "new_events (a\<lparr>audio_recorder := r2\<rparr>)
              (stop_recording_and_transcribe CloseOk (a\<lparr>audio_recorder := r2\<rparr>)) =
             [Status ''Processing...'', RecordingIndicator False]
             @ (if background_mode a then [StopAnimation] else [])
             @ (if 1000 < length (concat (audio_data r2))
                then [TranscribeThread (concat (audio_data r2))]
                else [Status ''No audio captured'']
                     @ (if background_mode a then [PopupStatus ''No audio''] else [])
                     @ [ResetStatusDelayed])"
    using stop
    by (simp add: stop_recording_and_transcribe_def new_events_def notify_def Let_def)
  have general: "fst (stop_recording CloseOk (fst (deliver th tfs r))) =
                (if audio_data r @ map snd (take (received th tfs r) tfs) = [] then None
                 else Some (concat (audio_data r @ map snd (take (received th tfs r) tfs))))
              \<and> \<not> is_recording (snd (stop_recording CloseOk (fst (deliver th tfs r))))"
    if "is_recording r"
    using deliver_appends_received [OF that, of th tfs]
      stop_recording_ok [of "fst (deliver th tfs r)"]
    by simp
  from data stop plain ev general show ?thesis by simp
qed

lemmas rec_eval = idle_recorder_def recorder_init_def start_recording_def audio_callback_def
  np_rms_def nan_less_def stop_recording_def three_frames_def silent_frames_def

theorem stop_recording_returns_frames_witness:
  "\<not> is_recording idle_recorder
   \<and> is_recording (snd (start_recording OpenOk True idle_recorder))
   \<and> fst (stop_recording CloseOk
        (fst (deliver (1/50) three_frames (snd (start_recording OpenOk False idle_recorder)))))
       = Some [1, 2, 3, 4, 5]
   \<and> received (1/50) silent_frames (snd (start_recording OpenOk True idle_recorder)) = 3
   \<and> fst (stop_recording CloseOk
        (fst (deliver (1/50) silent_frames (snd (start_recording OpenOk True idle_recorder)))))
       = Some [0, 0, 0, 0, 0, 0]
   \<and> new_events
        (idle_app\<lparr>audio_recorder :=
           fst (deliver (1/50) three_frames (snd (start_recording OpenOk False idle_recorder)))\<rparr>)
        (stop_recording_and_transcribe CloseOk
          (idle_app\<lparr>audio_recorder :=
             fst (deliver (1/50) three_frames (snd (start_recording OpenOk False idle_recorder)))\<rparr>))
       = [Status ''Processing...'', RecordingIndicator False, Status ''No audio captured'',
          ResetStatusDelayed]"
  using stop_recording_returns_frames [of idle_recorder
      "snd (start_recording OpenOk False idle_recorder)" False
      "fst (deliver (1/50) three_frames (snd (start_recording OpenOk False idle_recorder)))"
      "1/50" three_frames idle_app "snd (start_recording OpenOk True idle_recorder)"]
    stop_recording_returns_frames [of idle_recorder
      "snd (start_recording OpenOk True idle_recorder)" True
      "fst (deliver (1/50) silent_frames (snd (start_recording OpenOk True idle_recorder)))"
      "1/50" silent_frames idle_app "snd (start_recording OpenOk True idle_recorder)"]
  by (simp add: rec_eval idle_app_def app_init_def)

text \<open>
  Claim C3 as written fails: a session that captured a single frame of three samples, or
  a single empty frame, is stopped with that buffer as the result, not \<^verbatim>\<open>None\<close>.
\<close>

theorem stop_recording_short_buffer_counterexample:
  "fst (stop_recording CloseOk
          (fst (audio_callback (1/50) 0 [1/2, 1/2, 1/2]
                  (snd (start_recording OpenOk False idle_recorder))))) = Some [1/2, 1/2, 1/2]
   \<and> fst (stop_recording CloseOk
          (fst (audio_callback (1/50) 0 []
                  (snd (start_recording OpenOk False idle_recorder))))) = Some []"
  by (simp add: stop_recording_def audio_callback_def start_recording_def idle_recorder_def recorder_init_def)

text \<open>A buffer of 1200 samples does go to the transcription thread.\<close>

lemma long_buffer_is_transcribed:
  "new_events
     (idle_app\<lparr>audio_recorder := idle_recorder\<lparr>is_recording := True,
                                                audio_data := [replicate 1200 0]\<rparr>\<rparr>)
     (stop_recording_and_transcribe CloseOk
        (idle_app\<lparr>audio_recorder := idle_recorder\<lparr>is_recording := True,
                                                   audio_data := [replicate 1200 0]\<rparr>\<rparr>))
   = [Status ''Processing...'', RecordingIndicator False, TranscribeThread (replicate 1200 0)]"
  by (simp add: stop_recording_and_transcribe_def stop_recording_def new_events_def notify_def
      idle_app_def app_init_def idle_recorder_def recorder_init_def)

subsection \<open>Auto-stop on silence\<close>

lemma callback_voiced:
  "auto_stop_session r \<Longrightarrow> \<not> silent th f \<Longrightarrow>
   audio_callback th now f r =
     (r\<lparr>audio_data := audio_data r @ [f], silence_start := None\<rparr>, paContinue, False)"
  by (simp add: audio_callback_def auto_stop_session_def silent_def)

lemma callback_silent_unset:
  "auto_stop_session r \<Longrightarrow> silent th f \<Longrightarrow> silence_start r = None \<Longrightarrow>
   audio_callback th now f r =
     (r\<lparr>audio_data := audio_data r @ [f], silence_start := Some now\<rparr>, paContinue, False)"
  by (simp add: audio_callback_def auto_stop_session_def silent_def)

lemma callback_silent_set:
  "auto_stop_session r \<Longrightarrow> silent th f \<Longrightarrow> silence_start r = Some s \<Longrightarrow>
   audio_callback th now f r =
     (r\<lparr>audio_data := audio_data r @ [f]\<rparr>,
      if now - s > silence_timeout r then paComplete else paContinue,
      now - s > silence_timeout r)"
  by (simp add: audio_callback_def auto_stop_session_def silent_def)

lemma callback_scheduled_complete:
  "audio_callback th now f r = (r', flag, True) \<Longrightarrow> flag = paComplete"
  by (auto simp: audio_callback_def Let_def split: if_splits option.splits)

lemma callback_keeps_recording:
  "is_recording (fst (audio_callback th now f r)) = is_recording r
   \<and> stream (fst (audio_callback th now f r)) = stream r
   \<and> auto_stop_callback (fst (audio_callback th now f r)) = auto_stop_callback r"
  by (auto simp: audio_callback_def Let_def split: if_splits option.splits)

lemma deliver_at_most_one: "snd (deliver th tfs r) \<le> 1"
proof (induction tfs arbitrary: r)
  case Nil
  show ?case by simp
next
  case (Cons tf tfs)
  obtain now f where tf: "tf = (now, f)" by (cases tf)
  obtain r' flag sch where cb: "audio_callback th now f r = (r', flag, sch)"
    by (cases "audio_callback th now f r")
  show ?case
  proof (cases "flag = paComplete")
    case True
    with tf cb show ?thesis by simp
  next
    case False
    with cb have "\<not> sch"
      using callback_scheduled_complete [of th now f r r' flag] by (cases sch) auto
    with tf cb False Cons.IH [of r'] show ?thesis by (simp split: prod.splits)
  qed
qed

text \<open>Silent frames arriving after the timer has been set at \<open>s\<close>.\<close>

lemma deliver_silent_run:
  assumes "auto_stop_session r" "silence_start r = Some s"
    and "\<forall>tf \<in> set tfs. silent th (snd tf)"
  shows "snd (deliver th tfs r) = of_bool (\<exists>tf \<in> set tfs. fst tf - s > silence_timeout r)"
  using assms
proof (induction tfs arbitrary: r)
  case Nil
  show ?case by simp
next
  case (Cons tf tfs)
  obtain now f where tf: "tf = (now, f)" by (cases tf)
  let ?r' = "r\<lparr>audio_data := audio_data r @ [f]\<rparr>"
  have sil: "silent th f" using Cons.prems(3) tf by simp
  have cb: "audio_callback th now f r =
     (?r', if now - s > silence_timeout r then paComplete else paContinue,
      now - s > silence_timeout r)"
    using callback_silent_set [OF Cons.prems(1) sil Cons.prems(2)] .
  show ?case
  proof (cases "now - s > silence_timeout r")
    case True
    with cb tf show ?thesis by simp
  next
    case False
    have "snd (deliver th tfs ?r') = of_bool (\<exists>tf \<in> set tfs. fst tf - s > silence_timeout ?r')"
      using Cons.prems by (intro Cons.IH) (simp_all add: auto_stop_session_def)
    with cb tf False show ?thesis by (simp split: prod.splits)
  qed
qed

lemma auto_session_eval:
  "auto_session = idle_recorder\<lparr>is_recording := True, auto_stop_enabled := True, stream := True\<rparr>"
  by (simp add: auto_session_def start_recording_def idle_recorder_def recorder_init_def)

text \<open>
  Claim C4. In a recording session with auto-stop enabled (and the auto-stop callback
  installed, as the application does at start-up): a frame whose RMS is at or above the
  threshold clears \<open>silence_start\<close>; a silent frame with \<open>silence_start\<close> unset sets it to
  the current time; a silent frame with \<open>silence_start = s\<close> schedules the deferred stop
  exactly when \<open>now - s\<close> exceeds \<open>silence_timeout\<close>, and then hands \<^verbatim>\<open>paComplete\<close> back.
  The callback itself never stops the recording. Over any sequence of frames at most one
  deferred stop is scheduled; a run of silent frames from a fresh timer schedules one
  exactly when some frame comes more than \<open>silence_timeout\<close> after the first; and after a
  voiced frame, silent frames within \<open>silence_timeout\<close> of the first of them schedule none,
  whatever the timer was before the voiced frame.
\<close>

theorem auto_stop_on_silence:
  assumes act: "auto_stop_session r"
  shows "(np_rms f = Some v \<and> th \<le> v \<longrightarrow>
            audio_callback th now f r =
              (r\<lparr>audio_data := audio_data r @ [f], silence_start := None\<rparr>, paContinue, False))
       \<and> (silent th f \<and> silence_start r = None \<longrightarrow>
            audio_callback th now f r =
              (r\<lparr>audio_data := audio_data r @ [f], silence_start := Some now\<rparr>, paContinue, False))
       \<and> (silent th f \<and> silence_start r = Some s \<longrightarrow>
            audio_callback th now f r =
              (r\<lparr>audio_data := audio_data r @ [f]\<rparr>,
               if now - s > silence_timeout r then paComplete else paContinue,
               now - s > silence_timeout r))
       \<and> is_recording (fst (audio_callback th now f r))
       \<and> stream (fst (audio_callback th now f r)) = stream r
       \<and> snd (deliver th tfs r) \<le> 1
       \<and> (silence_start r = None \<and> silent th first_f \<and> (\<forall>tf \<in> set tfs. silent th (snd tf)) \<longrightarrow>
            snd (deliver th ((first_t, first_f) # tfs) r)
              = of_bool (\<exists>tf \<in> set tfs. fst tf - first_t > silence_timeout r))
       \<and> (\<not> silent th voiced_f \<and> silent th next_f \<and> (\<forall>tf \<in> set tfs. silent th (snd tf))
            \<and> (\<forall>tf \<in> set tfs. fst tf - next_t \<le> silence_timeout r) \<longrightarrow>
            snd (deliver th ((voiced_t, voiced_f) # (next_t, next_f) # tfs) r) = 0)"
proof (intro conjI impI)
  show "snd (deliver th tfs r) \<le> 1" by (rule deliver_at_most_one)
  show "is_recording (fst (audio_callback th now f r))"
    using act by (simp add: callback_keeps_recording auto_stop_session_def)
  show "stream (fst (audio_callback th now f r)) = stream r"
    by (simp add: callback_keeps_recording)
next
  assume "np_rms f = Some v \<and> th \<le> v"
  then have "\<not> silent th f" by (simp add: silent_def nan_less_def)
  with act show "audio_callback th now f r =
              (r\<lparr>audio_data := audio_data r @ [f], silence_start := None\<rparr>, paContinue, False)"
    by (rule callback_voiced)
next
  assume "silent th f \<and> silence_start r = None"
  with act show "audio_callback th now f r =
              (r\<lparr>audio_data := audio_data r @ [f], silence_start := Some now\<rparr>, paContinue, False)"
    by (simp add: callback_silent_unset)
next
  assume "silent th f \<and> silence_start r = Some s"
  with act show "audio_callback th now f r =
              (r\<lparr>audio_data := audio_data r @ [f]\<rparr>,
               if now - s > silence_timeout r then paComplete else paContinue,
               now - s > silence_timeout r)"
    by (simp add: callback_silent_set)
next
  assume h: "silence_start r = None \<and> silent th first_f \<and> (\<forall>tf \<in> set tfs. silent th (snd tf))"
  let ?r' = "r\<lparr>audio_data := audio_data r @ [first_f], silence_start := Some first_t\<rparr>"
  have cb: "audio_callback th first_t first_f r = (?r', paContinue, False)"
    using act h by (simp add: callback_silent_unset)
  have "snd (deliver th tfs ?r') = of_bool (\<exists>tf \<in> set tfs. fst tf - first_t > silence_timeout ?r')"
    using act h by (intro deliver_silent_run) (simp_all add: auto_stop_session_def)
  with cb show "snd (deliver th ((first_t, first_f) # tfs) r)
              = of_bool (\<exists>tf \<in> set tfs. fst tf - first_t > silence_timeout r)"
    by (simp split: prod.splits)
next
  assume h: "\<not> silent th voiced_f \<and> silent th next_f \<and> (\<forall>tf \<in> set tfs. silent th (snd tf))
            \<and> (\<forall>tf \<in> set tfs. fst tf - next_t \<le> silence_timeout r)"
  let ?rv = "r\<lparr>audio_data := audio_data r @ [voiced_f], silence_start := None\<rparr>"
  let ?r1 = "?rv\<lparr>audio_data := audio_data ?rv @ [next_f], silence_start := Some next_t\<rparr>"
  have actv: "auto_stop_session ?rv" using act by (simp add: auto_stop_session_def)
  have cbv: "audio_callback th voiced_t voiced_f r = (?rv, paContinue, False)"
    using act h by (simp add: callback_voiced)
  have cb1: "audio_callback th next_t next_f ?rv = (?r1, paContinue, False)"
    using actv h by (simp add: callback_silent_unset)
  have "snd (deliver th tfs ?r1) = of_bool (\<exists>tf \<in> set tfs. fst tf - next_t > silence_timeout ?r1)"
    using act h by (intro deliver_silent_run) (simp_all add: auto_stop_session_def)
  moreover have "\<not> (\<exists>tf \<in> set tfs. fst tf - next_t > silence_timeout ?r1)"
    using h by (auto simp: not_less)
  ultimately have "snd (deliver th tfs ?r1) = 0" by simp
  with cbv cb1 show "snd (deliver th ((voiced_t, voiced_f) # (next_t, next_f) # tfs) r) = 0"
    by (simp split: prod.splits)
qed

theorem auto_stop_on_silence_witness:
  "auto_stop_session auto_session
   \<and> np_rms [1] = Some 1 \<and> silent (1/50) [0] \<and> silence_start auto_session = None
   \<and> silence_timeout auto_session = 2
   \<and> audio_callback (1/50) (19/10) [1] (auto_session\<lparr>silence_start := Some 0\<rparr>)
       = (auto_session\<lparr>silence_start := None, audio_data := [[1]]\<rparr>, paContinue, False)
   \<and> audio_callback (1/50) 0 [0] auto_session
       = (auto_session\<lparr>silence_start := Some 0, audio_data := [[0]]\<rparr>, paContinue, False)
   \<and> audio_callback (1/50) (21/10) [0] (auto_session\<lparr>silence_start := Some 0\<rparr>)
       = (auto_session\<lparr>silence_start := Some 0, audio_data := [[0]]\<rparr>, paComplete, True)
   \<and> snd (deliver (1/50) [(0, [0]), (1, [0]), (2, [0]), (21/10, [0]), (3, [0])] auto_session) = 1
   \<and> snd (deliver (1/50) [(19/10, [1]), (2, [0]), (21/10, [0]), (3, [0])]
            (auto_session\<lparr>silence_start := Some 0\<rparr>)) = 0"
  using auto_stop_on_silence [where r = auto_session and th = "1/50" and f = "[0]" and now = 0
      and first_f = "[0]" and first_t = 0 and tfs = "[(1, [0]), (2, [0]), (21/10, [0]), (3, [0])]"]
    auto_stop_on_silence [where r = "auto_session\<lparr>silence_start := Some 0\<rparr>" and th = "1/50"
      and f = "[1]" and v = 1 and now = "19/10"
      and voiced_f = "[1]" and voiced_t = "19/10" and next_f = "[0]" and next_t = 2 and tfs = "[(21/10, [0]), (3, [0])]"]
    auto_stop_on_silence [where r = "auto_session\<lparr>silence_start := Some 0\<rparr>" and th = "1/50"
      and f = "[0]" and s = 0 and now = "21/10"]
  by (simp add: auto_session_eval idle_recorder_def recorder_init_def auto_stop_session_def silent_def np_rms_def
      nan_less_def audio_callback_def)

section \<open>Properties of the controller and the hotkey handlers\<close>

lemma stop_and_transcribe_flags:
  "\<not> app_is_recording (stop_recording_and_transcribe dev a)
   \<and> \<not> is_toggle_mode (stop_recording_and_transcribe dev a)
   \<and> \<not> is_recording (audio_recorder (stop_recording_and_transcribe dev a))"
proof -
  obtain audio r where s: "stop_recording dev (audio_recorder a) = (audio, r)"
    by (cases "stop_recording dev (audio_recorder a)")
  then have "\<not> is_recording r" using stop_recording_clears [of dev "audio_recorder a"] by simp
  with s show ?thesis
    by (simp add: stop_recording_and_transcribe_def notify_def Let_def split: option.splits)
qed

lemma stop_and_transcribe_log:
  "length (ui_log (stop_recording_and_transcribe dev a)) > length (ui_log a)"
  by (simp add: stop_recording_and_transcribe_def notify_def Let_def
      split: option.splits prod.splits)

lemma stop_and_transcribe_changes: "stop_recording_and_transcribe dev a \<noteq> a"
  using stop_and_transcribe_log [of a dev] by (metis less_irrefl)

text \<open>
  The auto-stop callback, installed by the constructor of the application, stays installed
  through every operation of the controller; a voice-assistant session started on an idle
  recorder is therefore a session in which the callback runs its auto-stop branch.
\<close>

lemma start_recording_keeps_callback:
  "auto_stop_callback (snd (start_recording dev a r)) = auto_stop_callback r"
  by (cases dev) (simp_all add: start_recording_def Let_def)

lemma stop_recording_keeps_callback:
  "auto_stop_callback (snd (stop_recording dev r)) = auto_stop_callback r"
  by (simp add: stop_recording_def Let_def)

lemma controller_keeps_callback:
  "auto_stop_callback (audio_recorder (app_start_recording dev_open auto_stop a))
     = auto_stop_callback (audio_recorder a)"
  "auto_stop_callback (audio_recorder (stop_recording_and_transcribe dev_close a))
     = auto_stop_callback (audio_recorder a)"
  "auto_stop_callback (audio_recorder (toggle_recording dev_open dev_close a))
     = auto_stop_callback (audio_recorder a)"
  "auto_stop_callback (audio_recorder (on_push_to_talk_start dev_open a))
     = auto_stop_callback (audio_recorder a)"
  "auto_stop_callback (audio_recorder (on_push_to_talk_end dev_close a))
     = auto_stop_callback (audio_recorder a)"
  "auto_stop_callback (audio_recorder (on_auto_stop_triggered dev_close a))
     = auto_stop_callback (audio_recorder a)"
proof -
  show 1: "auto_stop_callback (audio_recorder (app_start_recording dev auto_stop a))
     = auto_stop_callback (audio_recorder a)" for dev auto_stop a
    using start_recording_keeps_callback [of dev auto_stop "audio_recorder a"]
    by (cases "start_recording dev auto_stop (audio_recorder a)")
       (simp add: app_start_recording_def notify_def Let_def)
  show 2: "auto_stop_callback (audio_recorder (stop_recording_and_transcribe dev a))
     = auto_stop_callback (audio_recorder a)" for dev a
    using stop_recording_keeps_callback [of dev "audio_recorder a"]
    by (cases "stop_recording dev (audio_recorder a)")
       (simp add: stop_recording_and_transcribe_def notify_def Let_def split: option.splits)
  show "auto_stop_callback (audio_recorder (toggle_recording dev_open dev_close a))
     = auto_stop_callback (audio_recorder a)"
    by (simp add: toggle_recording_def Let_def 1 2)
  show "auto_stop_callback (audio_recorder (on_push_to_talk_start dev_open a))
     = auto_stop_callback (audio_recorder a)"
    by (simp add: on_push_to_talk_start_def 1)
  show "auto_stop_callback (audio_recorder (on_push_to_talk_end dev_close a))
     = auto_stop_callback (audio_recorder a)"
    by (simp add: on_push_to_talk_end_def 2)
  show "auto_stop_callback (audio_recorder (on_auto_stop_triggered dev_close a))
     = auto_stop_callback (audio_recorder a)"
    by (simp add: on_auto_stop_triggered_def 2)
qed

lemma app_init_callback: "auto_stop_callback (audio_recorder (app_init timeout))"
  by (simp add: app_init_def)

lemma voice_assistant_session_is_auto_stop:
  "auto_stop_callback (audio_recorder a) \<Longrightarrow> \<not> is_recording (audio_recorder a) \<Longrightarrow>
   auto_stop_session (audio_recorder (app_start_recording OpenOk True a))"
  by (simp add: app_start_recording_def start_recording_def notify_def auto_stop_session_def)

lemmas key_eval = on_key_press_def on_key_release_def ptt_check_activation_def
  toggle_check_activation_def normalize_keys_def strip_def lower_def to_lower_def is_space_def
  default_hotkeys_def hotkey_manager_init_def toggle_handler_init_def idle_app_def app_init_def idle_recorder_def recorder_init_def
  on_push_to_talk_start_def on_push_to_talk_end_def on_toggle_recording_def toggle_recording_def
  app_start_recording_def start_recording_def stop_recording_and_transcribe_def stop_recording_def
  notify_def Let_def insert_commute insert_Diff_if

lemma toggle_run_eval:
  "toggle_run
   = ([False, False, True, False, False, False],
      \<lparr>current_keys = {''ctrl'', ''space''}, hk_enabled = True,
        push_to_talk = \<lparr>is_active = True, ptt_enabled = True\<rparr>,
        toggle_handler = \<lparr>last_toggle_time = 12, toggle_enabled = True, debounce_delay = 1/2\<rparr>\<rparr>,
      \<lparr>audio_recorder = \<lparr>is_recording = True, stream = True, audio_data = [],
             silence_start = None, silence_timeout = 2, auto_stop_callback = True,
             auto_stop_enabled = False\<rparr>,
        app_is_recording = True, is_toggle_mode = True, background_mode = False,
        ui_log = [Status ''Recording...'', RecordingIndicator True]\<rparr>)"
  by (simp add: toggle_run_def toggle_then_ptt_def key_eval)

text \<open>
  Claim C5. While toggle mode is set, the push-to-talk release path changes nothing: it
  does not call the stop path, so the recording goes on. The release path calls the stop
  path exactly when the controller is recording and toggle mode is not set. At the
  handler: an active push-to-talk handler whose chord is no longer held calls
  \<^verbatim>\<open>on_push_to_talk_end\<close> and, in toggle mode, leaves the application as it was.
\<close>

theorem push_to_talk_release_respects_toggle:
  "(is_toggle_mode a \<longrightarrow> on_push_to_talk_end dev a = a)
   \<and> (on_push_to_talk_end dev a \<noteq> a \<longleftrightarrow> app_is_recording a \<and> \<not> is_toggle_mode a)
   \<and> (app_is_recording a \<and> \<not> is_toggle_mode a \<longrightarrow>
        on_push_to_talk_end dev a = stop_recording_and_transcribe dev a)
   \<and> (ptt_enabled h \<and> is_active h \<and> is_toggle_mode a
        \<and> \<not> (normalize_keys (set keys) \<noteq> {}
               \<and> normalize_keys (set keys) \<subseteq> normalize_keys pressed) \<longrightarrow>
        ptt_check_activation keys dev_open dev pressed (h, a)
          = (True, h\<lparr>is_active := False\<rparr>, a))"
  using stop_and_transcribe_changes [of dev a]
  by (auto simp: on_push_to_talk_end_def ptt_check_activation_def Let_def)

theorem push_to_talk_release_respects_toggle_witness:
  "is_toggle_mode (snd (snd toggle_run)) \<and> app_is_recording (snd (snd toggle_run))
   \<and> is_recording (audio_recorder (snd (snd toggle_run)))
   \<and> is_active (push_to_talk (fst (snd toggle_run)))
   \<and> on_push_to_talk_end CloseOk (snd (snd toggle_run)) = snd (snd toggle_run)
   \<and> ptt_check_activation [''ctrl'', ''space''] OpenOk CloseOk {''ctrl''}
         (push_to_talk (fst (snd toggle_run)), snd (snd toggle_run))
       = (True, \<lparr>is_active = False, ptt_enabled = True\<rparr>, snd (snd toggle_run))
   \<and> snd (on_key_release default_hotkeys OpenOk CloseOk (Some ''space'') (snd toggle_run))
       = snd (snd toggle_run)
   \<and> app_is_recording (on_push_to_talk_start OpenOk idle_app)
   \<and> \<not> is_toggle_mode (on_push_to_talk_start OpenOk idle_app)
   \<and> on_push_to_talk_end CloseOk (on_push_to_talk_start OpenOk idle_app)
       = stop_recording_and_transcribe CloseOk (on_push_to_talk_start OpenOk idle_app)
   \<and> on_push_to_talk_end CloseOk (on_push_to_talk_start OpenOk idle_app)
       \<noteq> on_push_to_talk_start OpenOk idle_app"
  using push_to_talk_release_respects_toggle [of "snd (snd toggle_run)" CloseOk
      "push_to_talk (fst (snd toggle_run))" "[''ctrl'', ''space'']" "{''ctrl''}" OpenOk]
    push_to_talk_release_respects_toggle [of "on_push_to_talk_start OpenOk idle_app" CloseOk]
  by (simp add: toggle_run_eval key_eval)

lemma app_start_recording_ok:
  "\<not> is_recording (audio_recorder a) \<Longrightarrow>
   app_is_recording (app_start_recording OpenOk auto_stop a)
   \<and> is_toggle_mode (app_start_recording OpenOk auto_stop a) = is_toggle_mode a"
  by (simp add: app_start_recording_def start_recording_def notify_def Let_def)

text \<open>
  Every call of \<^verbatim>\<open>stop_recording_and_transcribe\<close> leaves \<^verbatim>\<open>is_recording\<close> and
  \<^verbatim>\<open>is_toggle_mode\<close> false (and the recorder not recording), whatever the device did and
  whatever was captured; this holds for the stop made by the toggle, by the auto-stop
  trigger and by push-to-talk. A push-to-talk press that comes directly after a stop and
  starts a recording is followed by a release that stops it.
\<close>

lemma stop_clears_recording_and_toggle_mode:
  "\<not> app_is_recording (stop_recording_and_transcribe dev a)
   \<and> \<not> is_toggle_mode (stop_recording_and_transcribe dev a)
   \<and> \<not> is_recording (audio_recorder (stop_recording_and_transcribe dev a))
   \<and> (app_is_recording a \<longrightarrow>
        toggle_recording dev_open dev a
          = stop_recording_and_transcribe dev (a\<lparr>is_toggle_mode := True\<rparr>)
        \<and> \<not> app_is_recording (toggle_recording dev_open dev a)
        \<and> \<not> is_toggle_mode (toggle_recording dev_open dev a))
   \<and> (app_is_recording a \<longrightarrow>
        on_auto_stop_triggered dev a = stop_recording_and_transcribe dev a
        \<and> \<not> is_toggle_mode (on_auto_stop_triggered dev a))
   \<and> on_push_to_talk_end dev'
        (on_push_to_talk_start OpenOk (stop_recording_and_transcribe dev a))
       = stop_recording_and_transcribe dev'
           (on_push_to_talk_start OpenOk (stop_recording_and_transcribe dev a))"
proof -
  let ?a = "stop_recording_and_transcribe dev a"
  note f = stop_and_transcribe_flags [of dev a]
  have "app_is_recording (app_start_recording OpenOk False ?a)
        \<and> \<not> is_toggle_mode (app_start_recording OpenOk False ?a)"
    using app_start_recording_ok [of ?a False] f by simp
  then have later: "on_push_to_talk_end dev' (on_push_to_talk_start OpenOk ?a)
       = stop_recording_and_transcribe dev' (on_push_to_talk_start OpenOk ?a)"
    using f by (simp add: on_push_to_talk_start_def on_push_to_talk_end_def)
  show ?thesis
    using f later stop_and_transcribe_flags [of dev "a\<lparr>is_toggle_mode := True\<rparr>"]
    by (simp add: toggle_recording_def on_auto_stop_triggered_def)
qed

lemma stop_clears_recording_and_toggle_mode_example:
  "app_is_recording (snd (snd toggle_run)) \<and> is_toggle_mode (snd (snd toggle_run))
   \<and> \<not> app_is_recording (toggle_recording OpenOk CloseRaises (snd (snd toggle_run)))
   \<and> \<not> is_toggle_mode (toggle_recording OpenOk CloseRaises (snd (snd toggle_run)))
   \<and> \<not> is_toggle_mode (on_auto_stop_triggered CloseOk (snd (snd toggle_run)))
   \<and> \<not> app_is_recording
        (on_push_to_talk_end CloseOk
           (on_push_to_talk_start OpenOk
              (stop_recording_and_transcribe CloseOk (snd (snd toggle_run)))))"
  using stop_clears_recording_and_toggle_mode [of CloseRaises "snd (snd toggle_run)" OpenOk]
    stop_clears_recording_and_toggle_mode [of CloseOk "snd (snd toggle_run)" OpenOk CloseOk]
  by (simp add: toggle_run_eval key_eval)

text \<open>
  Toggle mode is set before the start is attempted and is cleared only by the stop
  path, so a toggle whose start fails leaves it set with no session; the next recording
  that push-to-talk starts is then not stopped by the release.
\<close>

lemma failed_toggle_keeps_toggle_mode:
  "\<not> app_is_recording a \<Longrightarrow> \<not> is_recording (audio_recorder a) \<Longrightarrow> dev \<noteq> OpenOk \<Longrightarrow>
   is_toggle_mode (toggle_recording dev dev_close a)
   \<and> \<not> app_is_recording (toggle_recording dev dev_close a)
   \<and> \<not> is_recording (audio_recorder (toggle_recording dev dev_close a))"
  by (cases dev)
     (simp_all add: toggle_recording_def app_start_recording_def start_recording_def notify_def Let_def)

lemma release_ignored_after_failed_toggle:
  assumes "\<not> app_is_recording a" "\<not> is_recording (audio_recorder a)" "is_toggle_mode a"
  shows "on_push_to_talk_end dev_close (on_push_to_talk_start OpenOk a)
           = on_push_to_talk_start OpenOk a
         \<and> app_is_recording (on_push_to_talk_start OpenOk a)
         \<and> is_recording (audio_recorder (on_push_to_talk_start OpenOk a))"
  using assms
  by (simp add: on_push_to_talk_start_def on_push_to_talk_end_def app_start_recording_def
      start_recording_def notify_def Let_def)

text \<open>
  Claim C10 at an input the controller can receive: the toggle chord is pressed while the
  audio device cannot be opened, and released; later, with the device available, the
  push-to-talk chord is completed and its last key released. Toggle mode, set by the
  failed toggle, has outlived it: the release stops nothing and the recording runs on.
\<close>

theorem toggle_mode_outlives_failed_start:
  "fst failed_toggle_run = [False, False, True, False, False]
   \<and> is_toggle_mode (snd (snd failed_toggle_run))
   \<and> \<not> app_is_recording (snd (snd failed_toggle_run))
   \<and> \<not> is_recording (audio_recorder (snd (snd failed_toggle_run)))
   \<and> \<not> is_active (push_to_talk (fst (snd push_to_talk_after_failed_toggle)))
   \<and> current_keys (fst (snd push_to_talk_after_failed_toggle)) = {''ctrl''}
   \<and> app_is_recording (snd (snd push_to_talk_after_failed_toggle))
   \<and> is_recording (audio_recorder (snd (snd push_to_talk_after_failed_toggle)))
   \<and> is_toggle_mode (snd (snd push_to_talk_after_failed_toggle))"
  by code_simp

subsection \<open>The toggle handler\<close>

lemma toggle_debounce:
  assumes "toggle_check_activation keys d1 d2 t pressed (h, a) = (True, h', a')"
    and "t' - t \<le> debounce_delay h"
  shows "toggle_check_activation keys d1' d2' t' pressed' (h', a') = (False, h', a')"
  using assms by (auto simp: toggle_check_activation_def Let_def split: if_splits)

lemma toggle_fires_iff:
  "fst (toggle_check_activation keys d1 d2 t pressed (h, a)) \<longleftrightarrow>
     toggle_enabled h \<and> normalize_keys (set keys) \<noteq> {}
     \<and> normalize_keys (set keys) \<subseteq> normalize_keys pressed
     \<and> t - last_toggle_time h > debounce_delay h"
  by (simp add: toggle_check_activation_def Let_def)

text \<open>
  Claim C6 at an input the handler can receive: the chord ctrl+shift+r is completed at
  10.2 s and the handler fires; the key \<open>r\<close> repeats at 10.8 s with the chord still held
  and no release in between, and the handler fires again, which stops the recording it
  had just started.
\<close>

theorem toggle_refires_while_held:
  "fst (key_events default_hotkeys OpenOk CloseOk
     [Press 10 ''ctrl'', Press (101/10) ''shift'', Press (102/10) ''r'', Press (108/10) ''r'']
     (hotkey_manager_init, idle_app)) = [False, False, True, True]
   \<and> \<not> app_is_recording (snd (snd (key_events default_hotkeys OpenOk CloseOk
     [Press 10 ''ctrl'', Press (101/10) ''shift'', Press (102/10) ''r'', Press (108/10) ''r'']
     (hotkey_manager_init, idle_app))))"
  by (simp add: key_eval)

text \<open>
  The single-file variant does not fire again while the chord is held: on the same
  events its handler fires once.
\<close>

lemma legacy_held_no_refire:
  "toggle_mode_active m \<Longrightarrow> fst (legacy_on_key_press keys t k m) = False
     \<and> toggle_mode_active (snd (legacy_on_key_press keys t k m))"
  by (simp add: legacy_on_key_press_def Let_def)

lemma legacy_same_input:
  "legacy_key_events [''ctrl'', ''shift'', ''r'']
     [Press 10 ''ctrl'', Press (101/10) ''shift'', Press (102/10) ''r'', Press (108/10) ''r'']
     legacy_hotkeys_init = [False, False, True, False]"
  by (simp add: legacy_on_key_press_def legacy_hotkeys_init_def normalize_keys_def strip_def
      lower_def to_lower_def is_space_def Let_def insert_commute)

section \<open>Properties of the wake-word listener\<close>

subsection \<open>The rolling buffer\<close>

lemma last_n_last_n_append: "last_n n (last_n n xs @ ys) = last_n n (xs @ ys)"
  by (cases "length xs \<le> n") (auto simp: last_n_def add.commute)

lemma length_last_n: "length (last_n n xs) = min n (length xs)"
  by (auto simp: last_n_def)

lemma extend_buffer_fields:
  "sample_rate (extend_buffer c h) = sample_rate h"
  "buffer_duration (extend_buffer c h) = buffer_duration h"
  "max_samples (extend_buffer c h) = max_samples h"
  "wake_word (extend_buffer c h) = wake_word h"
  "last_detection_time (extend_buffer c h) = last_detection_time h"
  "cooldown_period (extend_buffer c h) = cooldown_period h"
  "is_listening (extend_buffer c h) = is_listening h"
  by (simp_all add: extend_buffer_def max_samples_def Let_def)

lemma extend_buffer_last_n:
  "0 < max_samples h \<Longrightarrow>
   audio_buffer (extend_buffer c h) = last_n (nat (max_samples h)) (audio_buffer h @ c)"
proof -
  assume m: "0 < max_samples h"
  let ?buf = "audio_buffer h @ c"
  show ?thesis
  proof (cases "int (length ?buf) > max_samples h")
    case True
    have "nat (int (length ?buf) + - max_samples h) = length ?buf - nat (max_samples h)"
      using m True by linarith
    with m True show ?thesis
      by (simp add: extend_buffer_def slice_from_def last_n_def Let_def del: drop_append)
  next
    case False
    then have "length ?buf - nat (max_samples h) = 0" by linarith
    with False show ?thesis
      by (simp add: extend_buffer_def last_n_def Let_def del: drop_append)
  qed
qed

lemma extend_all_max_samples: "max_samples (extend_all cs h) = max_samples h"
  by (induction cs arbitrary: h) (simp_all add: extend_buffer_fields)

lemma extend_all_last_n:
  assumes "0 < max_samples h" "int (length (audio_buffer h)) \<le> max_samples h"
  shows "audio_buffer (extend_all cs h)
           = last_n (nat (max_samples h)) (audio_buffer h @ concat cs)"
  using assms
proof (induction cs arbitrary: h)
  case Nil
  then show ?case by (simp add: last_n_def)
next
  case (Cons c cs)
  let ?h = "extend_buffer c h"
  have b: "audio_buffer ?h = last_n (nat (max_samples h)) (audio_buffer h @ c)"
    using Cons.prems(1) by (rule extend_buffer_last_n)
  have "int (length (audio_buffer ?h)) \<le> max_samples ?h"
    using Cons.prems(1) by (simp add: b length_last_n extend_buffer_fields)
  then have "audio_buffer (extend_all cs ?h)
           = last_n (nat (max_samples ?h)) (audio_buffer ?h @ concat cs)"
    using Cons.prems(1) by (intro Cons.IH) (simp_all add: extend_buffer_fields)
  then show ?case
    using last_n_last_n_append [of "nat (max_samples h)" "audio_buffer h @ c" "concat cs"]
    by (simp add: b extend_buffer_fields)
qed

lemma max_samples_bound:
  "0 < max_samples h \<Longrightarrow> real_of_int (max_samples h) \<le> buffer_duration h * real_of_int (sample_rate h)"
  by (auto simp: max_samples_def py_int_def split: if_splits)

text \<open>
  Claim C7. With a positive capacity \<open>max_samples = int(buffer_duration * sample_rate)\<close>
  (any positive sample rate), a buffer within capacity stays within capacity after any
  number of appended frames, hence holds at most \<open>buffer_duration * sample_rate\<close> samples,
  and its content is exactly the most recent \<open>max_samples\<close> samples of everything appended,
  in order.
\<close>

theorem rolling_buffer_bounded:
  assumes "0 < max_samples h" and "int (length (audio_buffer h)) \<le> max_samples h"
  shows "int (length (audio_buffer (extend_all cs h))) \<le> max_samples h
       \<and> real (length (audio_buffer (extend_all cs h)))
            \<le> buffer_duration h * real_of_int (sample_rate h)
       \<and> audio_buffer (extend_all cs h)
            = drop (length (audio_buffer h @ concat cs) - nat (max_samples h))
                (audio_buffer h @ concat cs)"
proof -
  have eq: "audio_buffer (extend_all cs h)
           = last_n (nat (max_samples h)) (audio_buffer h @ concat cs)"
    using assms by (rule extend_all_last_n)
  then have len: "int (length (audio_buffer (extend_all cs h))) \<le> max_samples h"
    using assms(1) by (simp add: length_last_n)
  have "real (length (audio_buffer (extend_all cs h))) \<le> real_of_int (max_samples h)"
    using len by linarith
  with max_samples_bound [OF assms(1)] len eq show ?thesis
    by (simp add: last_n_def)
qed

lemma init_max: "max_samples (hey_soffy_init w sr) = 3 * sr"
proof -
  have "3 * real_of_int sr = real_of_int (3 * sr)" by simp
  then have "\<lfloor>3 * real_of_int sr\<rfloor> = 3 * sr" and "\<lceil>3 * real_of_int sr\<rceil> = 3 * sr"
    by (simp_all only: floor_of_int ceiling_of_int)
  then show ?thesis by (simp add: max_samples_def hey_soffy_init_def py_int_def)
qed

theorem rolling_buffer_bounded_witness:
  "0 < max_samples (hey_soffy_init ''Hey Soffy'' 2)
   \<and> max_samples (hey_soffy_init ''Hey Soffy'' 2) = 6
   \<and> audio_buffer (hey_soffy_init ''Hey Soffy'' 2) = []
   \<and> audio_buffer (extend_all [[1, 2, 3, 4], [5, 6, 7, 8], [9, 10]]
                      (hey_soffy_init ''Hey Soffy'' 2)) = [5, 6, 7, 8, 9, 10]
   \<and> length (audio_buffer (extend_all [[1, 2, 3, 4], [5, 6, 7, 8], [9, 10]]
                              (hey_soffy_init ''Hey Soffy'' 2))) = 6"
  using rolling_buffer_bounded [of "hey_soffy_init ''Hey Soffy'' 2"
      "[[1, 2, 3, 4], [5, 6, 7, 8], [9, 10]]"]
  by (simp add: init_max) (simp add: hey_soffy_init_def)

text \<open>From the constructor: three seconds of audio at any positive sample rate.\<close>

lemma rolling_buffer_from_init:
  assumes "0 < rate"
  shows "int (length (audio_buffer (extend_all cs (hey_soffy_init phrase rate)))) \<le> 3 * rate
       \<and> audio_buffer (extend_all cs (hey_soffy_init phrase rate))
            = last_n (nat (3 * rate)) (concat cs)"
proof -
  let ?h = "hey_soffy_init phrase rate"
  have m: "max_samples ?h = 3 * rate" by (rule init_max)
  have e: "audio_buffer ?h = []" by (simp add: hey_soffy_init_def)
  have "audio_buffer (extend_all cs ?h) = last_n (nat (max_samples ?h)) (audio_buffer ?h @ concat cs)"
    using assms by (intro extend_all_last_n) (simp_all add: m e)
  then show ?thesis using assms by (simp add: m e length_last_n)
qed

subsection \<open>Matching the wake phrase\<close>

lemma slice_match_iff_sublist:
  "(\<exists>i. take (length ws) (drop i ts) = ws) \<longleftrightarrow> sublist ws ts"
proof
  assume "\<exists>i. take (length ws) (drop i ts) = ws"
  then obtain i where i: "take (length ws) (drop i ts) = ws" ..
  have "ts = take i ts @ take (length ws) (drop i ts) @ drop (length ws) (drop i ts)"
    by (simp only: append_take_drop_id)
  with i have "ts = take i ts @ ws @ drop (length ws) (drop i ts)" by simp
  then show "sublist ws ts" unfolding sublist_def by blast
next
  assume "sublist ws ts"
  then obtain ps ss where "ts = ps @ ws @ ss" unfolding sublist_def by blast
  then have "take (length ws) (drop (length ps) ts) = ws" by simp
  then show "\<exists>i. take (length ws) (drop i ts) = ws" ..
qed

lemma scan_iff_slice_match:
  "list_ex (\<lambda>i. take (length ws) (drop i ts) = ws)
       [0 ..< nat (int (length ts) - int (length ws) + 1)]
   \<longleftrightarrow> (\<exists>i. take (length ws) (drop i ts) = ws)"
proof
  assume "list_ex (\<lambda>i. take (length ws) (drop i ts) = ws)
       [0 ..< nat (int (length ts) - int (length ws) + 1)]"
  then show "\<exists>i. take (length ws) (drop i ts) = ws" by (auto simp: list_ex_iff)
next
  assume "\<exists>i. take (length ws) (drop i ts) = ws"
  then obtain i where i: "take (length ws) (drop i ts) = ws" ..
  then have "length (take (length ws) (drop i ts)) = length ws" by simp
  then have le: "length ws \<le> length ts - i" by simp
  show "list_ex (\<lambda>i. take (length ws) (drop i ts) = ws)
       [0 ..< nat (int (length ts) - int (length ws) + 1)]"
  proof (cases "ws = []")
    case True
    then show ?thesis by (auto simp: list_ex_iff intro: exI [of _ 0])
  next
    case False
    with le have "i < nat (int (length ts) - int (length ws) + 1)" by (cases ws) auto
    with i show ?thesis by (auto simp: list_ex_iff)
  qed
qed

text \<open>
  Claim C8. Whenever \<^verbatim>\<open>_check_for_wake_word\<close> gets as far as a recognised text, it returns
  true exactly when some index \<open>i\<close> has \<^verbatim>\<open>text_words[i:i+len(wake_words)] == wake_words\<close>,
  that is exactly when the words of the wake phrase are a contiguous sublist of the words
  of the lower-cased, stripped text. The phrase itself was lower-cased by the constructor.
\<close>

theorem wake_word_detected_iff_contiguous:
  assumes "wake_word_audio h = Some audio" and "transcribe audio = Some raw"
  shows "(check_for_wake_word transcribe h \<longleftrightarrow>
            (\<exists>i. take (length (split (wake_word h))) (drop i (split (strip (lower raw))))
                  = split (wake_word h)))
       \<and> (check_for_wake_word transcribe h \<longleftrightarrow>
            sublist (split (wake_word h)) (split (strip (lower raw))))
       \<and> wake_word (hey_soffy_init phrase rate) = lower phrase"
proof -
  have "check_for_wake_word transcribe h \<longleftrightarrow>
          list_ex (\<lambda>i. take (length (split (wake_word h))) (drop i (split (strip (lower raw))))
                        = split (wake_word h))
            [0 ..< nat (int (length (split (strip (lower raw))))
                        - int (length (split (wake_word h))) + 1)]"
    using assms by (simp add: check_for_wake_word_def wake_word_in_text_def Let_def)
  then show ?thesis
    using scan_iff_slice_match [of "split (wake_word h)" "split (strip (lower raw))"]
      slice_match_iff_sublist [of "split (wake_word h)" "split (strip (lower raw))"]
    by (simp add: hey_soffy_init_def)
qed

lemmas hs_eval = listening_def hey_soffy_init_def extend_buffer_def max_samples_def py_int_def
  slice_from_def wake_word_audio_def np_max_abs_def check_for_wake_word_def wake_word_in_text_def
  split_def strip_def lower_def to_lower_def is_space_def Let_def upt_rec
  listen_iteration_def detect_voice_activity_def nan_greater_def np_rms_def buffered_def

theorem wake_word_detected_iff_contiguous_witness:
  "wake_word_audio (extend_buffer [1, 1] listening) = Some [1, 1]
   \<and> split (wake_word (extend_buffer [1, 1] listening)) = [''hey'', ''soffy'']
   \<and> split (strip (lower '' Okay hey  SOFFY please'')) = [''okay'', ''hey'', ''soffy'', ''please'']
   \<and> check_for_wake_word (\<lambda>_. Some '' Okay hey  SOFFY please'') (extend_buffer [1, 1] listening)
   \<and> sublist [''hey'', ''soffy''] [''okay'', ''hey'', ''soffy'', ''please'']
   \<and> \<not> check_for_wake_word (\<lambda>_. Some ''hey there soffy'') (extend_buffer [1, 1] listening)
   \<and> \<not> sublist [''hey'', ''soffy''] [''hey'', ''there'', ''soffy'']"
  using wake_word_detected_iff_contiguous [of "extend_buffer [1, 1] listening" "[1, 1]"
      "\<lambda>_. Some '' Okay hey  SOFFY please''" "'' Okay hey  SOFFY please''"]
    wake_word_detected_iff_contiguous [of "extend_buffer [1, 1] listening" "[1, 1]"
      "\<lambda>_. Some ''hey there soffy''" "''hey there soffy''"]
  by (simp add: hs_eval)

subsection \<open>The cooldown\<close>

lemma buffered_fields:
  "last_detection_time (buffered data h) = last_detection_time h"
  "cooldown_period (buffered data h) = cooldown_period h"
  "is_listening (buffered data h) = is_listening h"
  by (simp_all add: buffered_def extend_buffer_fields split: option.splits)

lemma listen_iteration_cases:
  "listen_iteration th tr now data h =
     (if (\<exists>c. data = Some c \<and> detect_voice_activity th c)
          \<and> now - last_detection_time h > cooldown_period h
      then if check_for_wake_word tr (buffered data h)
           then ((buffered data h)\<lparr>last_detection_time := now\<rparr>, True, True)
           else (buffered data h, True, False)
      else (buffered data h, False, False))"
  by (auto simp: listen_iteration_def buffered_def extend_buffer_fields Let_def split: option.splits)

lemma listen_iteration_cooldown:
  "now - last_detection_time h \<le> cooldown_period h \<Longrightarrow>
   listen_iteration th tr now data h = (buffered data h, False, False)"
  by (simp add: listen_iteration_cases)

lemma listen_iteration_fields:
  assumes "listen_iteration th tr now data h = (h', checked, activated)"
  shows "cooldown_period h' = cooldown_period h" "is_listening h' = is_listening h"
    "last_detection_time h' = (if activated then now else last_detection_time h)"
    "activated \<longrightarrow> checked \<and> now - last_detection_time h > cooldown_period h"
  using assms by (auto simp: listen_iteration_cases buffered_fields split: if_splits)

lemma listen_worker_quiet:
  assumes "\<forall>it \<in> set its. fst it - last_detection_time h \<le> cooldown_period h"
  shows "snd (listen_worker th its h) = []"
  using assms
proof (induction its arbitrary: h)
  case Nil
  show ?case by simp
next
  case (Cons it its)
  obtain now data tr where it: "it = (now, data, tr)" by (cases it)
  have step: "listen_iteration th tr now data h = (buffered data h, False, False)"
    using Cons.prems it by (simp add: listen_iteration_cooldown)
  have "snd (listen_worker th its (buffered data h)) = []"
    using Cons.prems by (intro Cons.IH) (simp add: buffered_fields)
  with it step show ?case by (simp split: prod.splits)
qed

lemma listen_worker_spaced:
  "successively (\<lambda>t t'. t' - t > cooldown_period h) (snd (listen_worker th its h))
   \<and> (\<forall>t \<in> set (take 1 (snd (listen_worker th its h))).
         t - last_detection_time h > cooldown_period h)"
proof (induction its arbitrary: h)
  case Nil
  show ?case by simp
next
  case (Cons it its)
  obtain now data tr where it: "it = (now, data, tr)" by (cases it)
  show ?case
  proof (cases "is_listening h")
    case False
    with it show ?thesis by simp
  next
    case True
    obtain h' checked activated where
      step: "listen_iteration th tr now data h = (h', checked, activated)"
      by (cases "listen_iteration th tr now data h") auto
    obtain h'' acts where rest: "listen_worker th its h' = (h'', acts)"
      by (cases "listen_worker th its h'")
    note f = listen_iteration_fields [OF step]
    have ih: "successively (\<lambda>t t'. t' - t > cooldown_period h) acts"
      "\<forall>t \<in> set (take 1 acts). t - last_detection_time h' > cooldown_period h"
      using Cons.IH [of h'] rest f(1) by simp_all
    show ?thesis
    proof (cases activated)
      case True
      with f have "now - last_detection_time h > cooldown_period h"
        and "last_detection_time h' = now" by simp_all
      with ih True it step rest \<open>is_listening h\<close> show ?thesis
        by (cases acts) (simp_all add: successively_Cons)
    next
      case False
      with f have "last_detection_time h' = last_detection_time h" by simp
      with ih False it step rest \<open>is_listening h\<close> show ?thesis by simp
    qed
  qed
qed

text \<open>
  Claim C9. An iteration whose clock reading is within the cooldown of the last detection
  neither calls the phrase check nor activates; the check is called only when more than
  the cooldown has passed; \<open>last_detection_time\<close> changes only on an activation, to that
  iteration's time. In any run of the loop successive activations are more than the
  cooldown apart, and when a genuine detection activates at \<open>now\<close>, every later iteration
  within the cooldown of it, genuine or not, activates nothing: the run has exactly that
  one activation.
\<close>

theorem wake_word_cooldown:
  "(now - last_detection_time h \<le> cooldown_period h \<longrightarrow>
      listen_iteration th tr now data h = (buffered data h, False, False))
   \<and> (fst (snd (listen_iteration th tr now data h)) \<longrightarrow>
        now - last_detection_time h > cooldown_period h)
   \<and> last_detection_time (fst (listen_iteration th tr now data h))
       = (if snd (snd (listen_iteration th tr now data h)) then now else last_detection_time h)
   \<and> successively (\<lambda>t t'. t' - t > cooldown_period h) (snd (listen_worker th its h))
   \<and> (is_listening h \<and> detect_voice_activity th c \<and> check_for_wake_word tr (extend_buffer c h)
        \<and> now - last_detection_time h > cooldown_period h
        \<and> (\<forall>it \<in> set its. fst it - now \<le> cooldown_period h) \<longrightarrow>
        snd (listen_worker th ((now, Some c, tr) # its) h) = [now])"
proof (intro conjI impI)
  show "listen_iteration th tr now data h = (buffered data h, False, False)"
    if "now - last_detection_time h \<le> cooldown_period h"
    using that by (rule listen_iteration_cooldown)
  show "now - last_detection_time h > cooldown_period h"
    if "fst (snd (listen_iteration th tr now data h))"
    using that by (auto simp: listen_iteration_cases split: if_splits)
  show "last_detection_time (fst (listen_iteration th tr now data h))
       = (if snd (snd (listen_iteration th tr now data h)) then now else last_detection_time h)"
    by (simp add: listen_iteration_cases buffered_fields)
  show "successively (\<lambda>t t'. t' - t > cooldown_period h) (snd (listen_worker th its h))"
    using listen_worker_spaced [of h th its] by simp
next
  assume a: "is_listening h \<and> detect_voice_activity th c
        \<and> check_for_wake_word tr (extend_buffer c h)
        \<and> now - last_detection_time h > cooldown_period h
        \<and> (\<forall>it \<in> set its. fst it - now \<le> cooldown_period h)"
  let ?h' = "(extend_buffer c h)\<lparr>last_detection_time := now\<rparr>"
  have it: "listen_iteration th tr now (Some c) h = (?h', True, True)"
    using a by (simp add: listen_iteration_cases buffered_def)
  have "snd (listen_worker th its ?h') = []"
    using a by (intro listen_worker_quiet) (simp add: extend_buffer_fields)
  with a it show "snd (listen_worker th ((now, Some c, tr) # its) h) = [now]"
    by (cases "listen_worker th its ?h'") simp
qed

theorem wake_word_cooldown_witness:
  "is_listening listening \<and> detect_voice_activity (1/50) [1, 1]
   \<and> check_for_wake_word (\<lambda>_. Some ''Hey Soffy'') (extend_buffer [1, 1] listening)
   \<and> cooldown_period listening = 3 \<and> last_detection_time listening = 0
   \<and> snd (listen_worker (1/50)
         [(100, Some [1, 1], \<lambda>_. Some ''Hey Soffy''), (102, Some [1, 1], \<lambda>_. Some ''Hey Soffy'')]
         listening) = [100]
   \<and> listen_iteration (1/50) (\<lambda>_. Some ''Hey Soffy'') 102 (Some [1, 1])
         (listening\<lparr>last_detection_time := 100\<rparr>)
       = (extend_buffer [1, 1] (listening\<lparr>last_detection_time := 100\<rparr>), False, False)"
  using wake_word_cooldown [where h = listening and th = "1/50" and c = "[1, 1]" and now = 100
      and tr = "\<lambda>_. Some ''Hey Soffy''"
      and its = "[(102, Some [1, 1], \<lambda>_. Some ''Hey Soffy'')]"]
    wake_word_cooldown [where h = "listening\<lparr>last_detection_time := 100\<rparr>" and th = "1/50"
      and now = 102 and tr = "\<lambda>_. Some ''Hey Soffy''" and data = "Some [1, 1]"]
  by (simp add: hs_eval)

lemma after_cooldown_fires_again:
  "snd (listen_worker (1/50)
         [(100, Some [1, 1], \<lambda>_. Some ''Hey Soffy''), (102, Some [1, 1], \<lambda>_. Some ''Hey Soffy''),
          (104, Some [1, 1], \<lambda>_. Some ''Hey Soffy'')]
         listening) = [100, 104]"
  by (simp add: hs_eval)

end
